theory Spec2Isabelle
  imports Complex_Main "HOL-Library.Word" "HOL-Library.Signed_Division"
begin

unbundle bit_operations_syntax

section \<open>Data model\<close>

text \<open>
  The playback formats are \<^verbatim>\<open>int16_t\<close> and \<^verbatim>\<open>uint16_t\<close>; both are 16-bit words here
  (\<open>sint\<close> reads the signed value), so that the pointer reinterpretation
  \<^verbatim>\<open>*reinterpret_cast<uint16_t*>(&tempVal)\<close> and the implicit conversion in
  \<^verbatim>\<open>buf.push_back(s)\<close> are the identity on the bits. \<^verbatim>\<open>int32_t\<close> is a 32-bit word.
  Buffer offsets (\<^verbatim>\<open>int\<close>, \<^verbatim>\<open>size_t\<close>) are natural numbers: every offset the loops
  compute is non-negative and stays below \<open>2 ^ 31\<close> for the buffer sizes of the programs.
\<close>

type_synonym int16_t = "16 word"
type_synonym uint16_t = "16 word"
type_synonym int32_t = "32 word"

section \<open>Bit-depth reduction (minPcmBitDepthConv.cpp)\<close>

definition INT16_MIN :: int32_t where
  "INT16_MIN = - 32768"

definition INT16_MAX :: int32_t where
  "INT16_MAX = 32767"

text \<open>
  \<^verbatim>\<open>getTruncatedSample\<close>: the shift of a signed value is the arithmetic shift
  \<open>signed_drop_bit\<close>, the comparisons are signed, the division of two \<^verbatim>\<open>int\<close>s truncates
  towards zero (\<open>sdiv\<close>) and the final cast keeps the low 16 bits.
\<close>

definition getTruncatedSample :: "int32_t \<Rightarrow> int16_t" where
  "getTruncatedSample audioSample24bit =
    (let res = audioSample24bit;
         res = signed_drop_bit 8 (res + 128);
         res = (if res <s INT16_MIN then INT16_MIN
                else if INT16_MAX <s res then INT16_MAX
                else res);
         res = (word_of_int (sint (res * 29204) sdiv sint (32768 :: int32_t)) :: int32_t)
     in ucast res)"

text \<open>
  The reducer as the specification words it, on mathematical integers: bias and shift,
  then clamp, then damp by the rational factor 29204 / 32768 (the quotient truncated towards
  zero, as integer division in the implementation language does).
\<close>

definition reducer_spec :: "int \<Rightarrow> int" where
  "reducer_spec x =
    (let r1 = (x + 128) div 2 ^ 8;
         r2 = max (- 32768) (min 32767 r1)
     in (r2 * 29204) sdiv 32768)"

section \<open>Byte order (all four programs)\<close>

text \<open>
  \<^verbatim>\<open>htons\<close> and \<^verbatim>\<open>htonl\<close> belong to the C library, not to the repository. They are
  modelled by their POSIX meaning, with the byte order of the host as a parameter: on a
  little-endian host they reverse the bytes, on a big-endian host they are the identity.
\<close>

definition htons :: "bool \<Rightarrow> uint16_t \<Rightarrow> uint16_t" where
  "htons hostLittleEndian x =
    (if hostLittleEndian then push_bit 8 x OR drop_bit 8 x else x)"

definition htonl :: "bool \<Rightarrow> 32 word \<Rightarrow> 32 word" where
  "htonl hostLittleEndian x =
    (if hostLittleEndian
     then push_bit 24 x OR push_bit 8 (x AND 0xFF00) OR (drop_bit 8 x AND 0xFF00) OR drop_bit 24 x
     else x)"

definition runningOnLittleEndianHost :: "bool \<Rightarrow> bool" where
  "runningOnLittleEndianHost hostLittleEndian = (htonl hostLittleEndian 23 \<noteq> 23)"

definition convToBigEndian :: "bool \<Rightarrow> uint16_t list \<Rightarrow> uint16_t list" where
  "convToBigEndian hostLittleEndian buff = map (htons hostLittleEndian) buff"

text \<open>
  \<^verbatim>\<open>main\<close> of minPcmStereo.cpp, lines 114 to 117 (the same three lines are in
  minPcmBitDepthConv.cpp and in the mono generator): the buffer is converted when the
  byte-order query says little-endian.
\<close>

definition main_normalize :: "bool \<Rightarrow> uint16_t list \<Rightarrow> uint16_t list" where
  "main_normalize hostLittleEndian buffer =
    (if runningOnLittleEndianHost hostLittleEndian
     then convToBigEndian hostLittleEndian buffer
     else buffer)"

text \<open>The two bytes of a sample, and the sample with its bytes exchanged.\<close>

definition lowByte :: "uint16_t \<Rightarrow> 8 word" where
  "lowByte x = ucast x"

definition highByte :: "uint16_t \<Rightarrow> 8 word" where
  "highByte x = ucast (drop_bit 8 x)"

definition swapBytes :: "uint16_t \<Rightarrow> uint16_t" where
  "swapBytes x = word_cat (lowByte x) (highByte x)"

section \<open>Replication of the period (optimized stereo generator)\<close>

record params =
  SAMPLE_RATE :: nat
  AUD_CHANNELS :: nat
  SINE_FREQ :: nat
  PROC_FRAME_SIZE :: nat

definition SAMPLES_PER_SINE :: "params \<Rightarrow> nat" where
  "SAMPLES_PER_SINE p = SAMPLE_RATE p div SINE_FREQ p"

definition SINES_IN_FRAME :: "params \<Rightarrow> nat" where
  "SINES_IN_FRAME p = PROC_FRAME_SIZE p div SAMPLES_PER_SINE p"

text \<open>The values of namespace \<^verbatim>\<open>params\<close>.\<close>

definition program_params :: params where
  "program_params =
    \<lparr>SAMPLE_RATE = 48000, AUD_CHANNELS = 2, SINE_FREQ = 1000, PROC_FRAME_SIZE = 1152\<rparr>"

text \<open>
  \<^verbatim>\<open>fillBuffer\<close> is three nested loops around \<^verbatim>\<open>buf.push_back(s)\<close>: over the channels
  (\<open>pushChannels\<close>), over the samples of the period (\<open>forEachSample\<close>) and over the
  periods of one frame (\<open>fillLoop\<close>).
\<close>

fun pushChannels :: "nat \<Rightarrow> 'a \<Rightarrow> 'a list \<Rightarrow> 'a list" where
  "pushChannels 0 s buf = buf"
| "pushChannels (Suc n) s buf = pushChannels n s (buf @ [s])"

fun forEachSample :: "nat \<Rightarrow> 'a list \<Rightarrow> 'a list \<Rightarrow> 'a list" where
  "forEachSample chans [] buf = buf"
| "forEachSample chans (s # ss) buf = forEachSample chans ss (pushChannels chans s buf)"

fun fillLoop :: "nat \<Rightarrow> nat \<Rightarrow> 'a list \<Rightarrow> 'a list \<Rightarrow> 'a list" where
  "fillLoop 0 chans monoSigBuff buf = buf"
| "fillLoop (Suc n) chans monoSigBuff buf =
     fillLoop n chans monoSigBuff (forEachSample chans monoSigBuff buf)"

definition fillBuffer :: "params \<Rightarrow> uint16_t list \<Rightarrow> uint16_t list \<Rightarrow> uint16_t list" where
  "fillBuffer p monoSigBuff buf = fillLoop (SINES_IN_FRAME p) (AUD_CHANNELS p) monoSigBuff buf"

text \<open>
  \<^verbatim>\<open>prepWriteBuffer\<close> tests \<^verbatim>\<open>if(runningOnLittleEndianHost)\<close>, the function itself and
  not its result: the address of a function is never null, so the test is always true
  and \<^verbatim>\<open>convToBigEndian\<close> runs on every host.
\<close>

definition functionAddressNonNull :: bool where
  "functionAddressNonNull = True"

definition prepWriteBuffer :: "bool \<Rightarrow> params \<Rightarrow> uint16_t list \<Rightarrow> uint16_t list" where
  "prepWriteBuffer hostLittleEndian p sigBuff =
    (let buff = [];
         buff = fillBuffer p sigBuff buff
     in if functionAddressNonNull then convToBigEndian hostLittleEndian buff else buff)"

section \<open>Segmentation of the ring buffer (minPcmStereo.cpp)\<close>

text \<open>
  The audio sink is outside the program. One call of \<^verbatim>\<open>snd_pcm_writei\<close> is described by
  what it returned and by what \<^verbatim>\<open>snd_pcm_recover\<close> returns when it is asked; a run of the
  playback loop is determined by the list of these replies, one per call.
\<close>

record sink_reply =
  writei_ret :: int
  recover_ret :: int

record seg_state =
  writePos :: nat
  writePosReminder :: nat

text \<open>
  Lines 132 to 153: the frame handed to the sink. The frame length \<^verbatim>\<open>writeFrameSize\<close>
  and the channel count (the literal 2 of the program) are parameters.
\<close>

definition nextFrame :: "nat \<Rightarrow> nat \<Rightarrow> 'a list \<Rightarrow> seg_state \<Rightarrow> 'a list \<times> seg_state" where
  "nextFrame writeFrameSize channels buffer st =
    (let buffSampleCount = length buffer;
         nextFramePosEnd = writePos st + writeFrameSize * channels
     in if nextFramePosEnd > buffSampleCount then
          (let lastBuffSamplesAmount = buffSampleCount - writePos st;
               tempWriteBuff = take lastBuffSamplesAmount (drop (writePos st) buffer);
               firstBuffSamplesAmount = writeFrameSize * channels - lastBuffSamplesAmount;
               tempWriteBuff = tempWriteBuff @ take firstBuffSamplesAmount buffer
           in (tempWriteBuff, st\<lparr>writePosReminder := firstBuffSamplesAmount\<rparr>))
        else (take (writeFrameSize * channels) (drop (writePos st) buffer), st))"

text \<open>Lines 155 to 158: the frame count after the write and the recovery attempt.\<close>

definition framesWritten :: "sink_reply \<Rightarrow> int" where
  "framesWritten rp = (if writei_ret rp < 0 then recover_ret rp else writei_ret rp)"

text \<open>
  One turn of the inner loop, lines 132 to 172: the frame, the state afterwards and
  whether the loop goes on (\<open>False\<close> is the \<^verbatim>\<open>break\<close> of line 161).
\<close>

definition loopBody ::
  "nat \<Rightarrow> nat \<Rightarrow> 'a list \<Rightarrow> sink_reply \<Rightarrow> seg_state \<Rightarrow> 'a list \<times> seg_state \<times> bool" where
  "loopBody writeFrameSize channels buffer rp st =
    (let (currBuff, st1) = nextFrame writeFrameSize channels buffer st;
         frames = framesWritten rp
     in if frames < 0 then (currBuff, st1, False)
        else (currBuff, st1\<lparr>writePos := writePos st1 + nat frames * channels\<rparr>, True))"

text \<open>
  The inner loop, lines 130 to 176. It returns the frames handed to the sink, the state
  and the replies not yet used. When the replies run out the trace ends there.
\<close>

fun innerLoop :: "nat \<Rightarrow> nat \<Rightarrow> 'a list \<Rightarrow> sink_reply list \<Rightarrow> seg_state
    \<Rightarrow> 'a list list \<times> seg_state \<times> sink_reply list" where
  "innerLoop writeFrameSize channels buffer [] st = ([], st, [])"
| "innerLoop writeFrameSize channels buffer (rp # rps) st =
    (if writePos st < length buffer then
       (let (currBuff, st1, continue) = loopBody writeFrameSize channels buffer rp st
        in if continue then
             (let (fs, st2, rest) = innerLoop writeFrameSize channels buffer rps st1
              in (currBuff # fs, st2, rest))
           else ([currBuff], st1, rps))
     else ([], st, rp # rps))"

text \<open>
  The outer loop, lines 126 to 178: every pass starts at \<^verbatim>\<open>writePosReminder\<close>
  (line 128). The first argument is the number of passes, \<^verbatim>\<open>_simulationDurSec\<close>.
\<close>

fun outerLoop :: "nat \<Rightarrow> nat \<Rightarrow> nat \<Rightarrow> 'a list \<Rightarrow> sink_reply list \<Rightarrow> nat \<Rightarrow> 'a list list" where
  "outerLoop 0 writeFrameSize channels buffer rps reminder = []"
| "outerLoop (Suc n) writeFrameSize channels buffer rps reminder =
    (let (fs, st, rest) =
           innerLoop writeFrameSize channels buffer rps
             \<lparr>writePos = reminder, writePosReminder = reminder\<rparr>
     in fs @ outerLoop n writeFrameSize channels buffer rest (writePosReminder st))"

definition playback :: "nat \<Rightarrow> nat \<Rightarrow> nat \<Rightarrow> 'a list \<Rightarrow> sink_reply list \<Rightarrow> 'a list list" where
  "playback passes writeFrameSize channels buffer rps =
     outerLoop passes writeFrameSize channels buffer rps 0"

text \<open>A write that takes the whole frame.\<close>

definition fullWrite :: "nat \<Rightarrow> sink_reply" where
  "fullWrite writeFrameSize = \<lparr>writei_ret = int writeFrameSize, recover_ret = 0\<rparr>"

text \<open>
  Reference notions of the specification: the samples at the offsets \<open>a\<close> up to \<open>b\<close>
  (excluded), and the first \<open>n\<close> samples of the ring read cyclically from offset 0.
\<close>

definition slice :: "'a list \<Rightarrow> nat \<Rightarrow> nat \<Rightarrow> 'a list" where
  "slice xs a b = map (\<lambda>i. xs ! i) [a..<b]"

definition ringCycle :: "'a list \<Rightarrow> nat \<Rightarrow> 'a list" where
  "ringCycle ring n = map (\<lambda>i. ring ! (i mod length ring)) [0..<n]"

section \<open>Waveform synthesis (minPcmStereo.cpp and the mono generator)\<close>

text \<open>
  The constants of the generators (\<^verbatim>\<open>_samplingRate\<close>, \<^verbatim>\<open>_sineFrequency\<close>, \<^verbatim>\<open>_PI\<close> in
  the source; an Isabelle name cannot start with an underscore).
\<close>

definition samplingRate :: real where
  "samplingRate = 48000.0"

definition sineFrequency :: real where
  "sineFrequency = 1000.0"

definition PI :: real where
  "PI = 3.14159265"

definition DAMPENING_FACTOR :: real where
  "DAMPENING_FACTOR = 0.70794578438413791080221494218931"

definition BUFFER_SIZE :: nat where
  "BUFFER_SIZE = 48000 * 2"

definition angleIncrement :: real where
  "angleIncrement = (sineFrequency / samplingRate) * 2.0 * PI"

text \<open>
  The programs compute in \<^verbatim>\<open>double\<close>. A \<^verbatim>\<open>double\<close> is a real number, and the value the
  program holds for an expression is the exact value of the expression plus a rounding
  error. The error of the whole expression at index \<open>iii\<close> is the parameter \<open>err iii\<close>;
  the theorems below hold for every error of at most one thousandth, far above what
  IEEE arithmetic and the library sine can produce on these magnitudes.

  \<open>scaledSample\<close> is \<^verbatim>\<open>INT16_MAX * (DAMPENING_FACTOR*amplitudeVal)\<close> of the stereo
  generator (lines 83 to 85), \<open>scaledSampleMono\<close> is \<^verbatim>\<open>SHRT_MAX * amplitudeVal\<close> of the mono
  generator (lines 44 to 46); both constants are 32767.
\<close>

definition scaledSample :: "(nat \<Rightarrow> real) \<Rightarrow> nat \<Rightarrow> real" where
  "scaledSample err iii = 32767 * (DAMPENING_FACTOR * sin (real iii * angleIncrement)) + err iii"


text \<open>The run in which no operation rounds.\<close>

definition exactArithmetic :: "nat \<Rightarrow> real" where
  "exactArithmetic iii = 0"

text \<open>
  \<^verbatim>\<open>static_cast<int16_t>\<close> of a \<^verbatim>\<open>double\<close> discards the fractional part; the behaviour
  is undefined when the result does not fit, which is \<open>None\<close> here.
\<close>

definition truncToZero :: "real \<Rightarrow> int" where
  "truncToZero v = (if 0 \<le> v then \<lfloor>v\<rfloor> else \<lceil>v\<rceil>)"

definition static_cast_int16 :: "real \<Rightarrow> int16_t option" where
  "static_cast_int16 v =
    (let t = truncToZero v
     in if - 32768 \<le> t \<and> t \<le> 32767 then Some (word_of_int t) else None)"

text \<open>A store into a fixed-size array; outside the array it is undefined, \<open>None\<close> here.\<close>

definition storeAt :: "nat \<Rightarrow> 'a \<Rightarrow> 'a list \<Rightarrow> 'a list option" where
  "storeAt i v xs = (if i < length xs then Some (xs[i := v]) else None)"

text \<open>
  The loop of lines 81 to 94 of minPcmStereo.cpp. The state is the lookup table
  \<^verbatim>\<open>monoSine1kHzLoopUp\<close> of 48 entries and \<^verbatim>\<open>_buffer\<close>.
\<close>

function sineLoop :: "(nat \<Rightarrow> real) \<Rightarrow> nat \<Rightarrow> nat \<Rightarrow> int16_t list \<times> uint16_t list
    \<Rightarrow> (int16_t list \<times> uint16_t list) option" where
  "sineLoop err a iii (lookUp, buffer) =
    (if real iii < samplingRate then
       (case static_cast_int16 (scaledSample err iii) of
          None \<Rightarrow> None
        | Some tempVal \<Rightarrow>
            (case (if iii < 48 then storeAt iii tempVal lookUp
                   else Some lookUp) of
               None \<Rightarrow> None
             | Some lut \<Rightarrow>
                 (case storeAt a tempVal buffer of
                    None \<Rightarrow> None
                  | Some buf1 \<Rightarrow>
                      (case storeAt (a + 1) tempVal buf1 of
                         None \<Rightarrow> None
                       | Some buf2 \<Rightarrow> sineLoop err (a + 2) (iii + 1) (lut, buf2)))))
     else Some (lookUp, buffer))"
  by pat_completeness auto
termination
  by (relation "measure (\<lambda>(err, a, iii, st). nat \<lceil>samplingRate\<rceil> - iii)")
    (auto simp add: samplingRate_def)

declare sineLoop.simps [simp del]

definition main_generate :: "(nat \<Rightarrow> real) \<Rightarrow> (int16_t list \<times> uint16_t list) option" where
  "main_generate err = sineLoop err 0 0 (replicate 48 0, replicate BUFFER_SIZE 0)"

text \<open>The table written into \<^verbatim>\<open>main\<close> of the optimized stereo generator.\<close>

definition monoSine1kHzLoopUp :: "int16_t list" where
  "monoSine1kHzLoopUp =
    [0, 3027, 6003, 8877, 11598, 14121, 16402, 18403, 20089, 21431, 22406, 22998, 23197, 22998,
     22406, 21431, 20089, 18403, 16402, 14121, 11598, 8877, 6003, 3027, 0, - 3027, - 6003, - 8877,
     - 11598, - 14121, - 16402, - 18403, - 20089, - 21431, - 22406, - 22998, - 23197, - 22998, - 22406,
     - 21431, - 20089, - 18403, - 16402, - 14121, - 11598, - 8877, - 6003, - 3027]"


section \<open>Enclosures of sine and cosine\<close>

text \<open>
  What follows is not program text. To decide what the cast returns, the sine has to be
  located between two rationals. \<open>approxOK S (s, c, r) \<theta>\<close> says that \<open>s\<close> and \<open>c\<close> are
  the sine and cosine of \<open>\<theta>\<close> at the fixed-point scale \<open>S\<close>, up to \<open>r\<close>. \<open>trigAdd\<close>
  adds two angles by the addition formulas, \<open>trigApprox\<close> reaches a multiple of an angle by
  doubling along the binary digits of the multiplier, and \<open>taylorFrac\<close> evaluates the
  Taylor polynomial of sine or cosine at a rational as one fraction.
\<close>

definition approxOK :: "int \<Rightarrow> int \<times> int \<times> int \<Rightarrow> real \<Rightarrow> bool" where
  "approxOK S t \<theta> =
    (case t of (s, c, r) \<Rightarrow>
       \<bar>real_of_int S * sin \<theta> - real_of_int s\<bar> \<le> real_of_int r
     \<and> \<bar>real_of_int S * cos \<theta> - real_of_int c\<bar> \<le> real_of_int r)"

definition trigAdd :: "int \<Rightarrow> int \<times> int \<times> int \<Rightarrow> int \<times> int \<times> int \<Rightarrow> int \<times> int \<times> int" where
  "trigAdd S t1 t2 =
    (case t1 of (s1, c1, r1) \<Rightarrow> case t2 of (s2, c2, r2) \<Rightarrow>
       ((s1 * c2 + c1 * s2) div S, (c1 * c2 - s1 * s2) div S,
        2 * (r1 + r2) + (2 * r1 * r2) div S + 2))"

definition trigDouble :: "int \<Rightarrow> int \<times> int \<times> int \<Rightarrow> int \<times> int \<times> int" where
  "trigDouble S t = trigAdd S t t"

fun trigApprox :: "int \<Rightarrow> int \<times> int \<times> int \<Rightarrow> num \<Rightarrow> int \<times> int \<times> int" where
  "trigApprox S b num.One = b"
| "trigApprox S b (num.Bit0 n) = trigDouble S (trigApprox S b n)"
| "trigApprox S b (num.Bit1 n) = trigAdd S (trigDouble S (trigApprox S b n)) b"

fun taylorH :: "nat \<Rightarrow> nat \<Rightarrow> real \<Rightarrow> real" where
  "taylorH 0 c x = 1"
| "taylorH (Suc n) c x = 1 - x * x / (real (c + 1) * real (c + 2)) * taylorH n (c + 2) x"

fun taylorFrac :: "nat \<Rightarrow> nat \<Rightarrow> int \<Rightarrow> int \<Rightarrow> int \<times> int" where
  "taylorFrac 0 c a q = (1, 1)"
| "taylorFrac (Suc n) c a q =
    (case taylorFrac n (c + 2) a q of
       (N, D) \<Rightarrow> (q * q * int ((c + 1) * (c + 2)) * D - a * a * N, q * q * int ((c + 1) * (c + 2)) * D))"

text \<open>Sine and cosine of \<open>angleIncrement\<close> at the scales \<open>2 ^ 40\<close> and \<open>2 ^ 64\<close>.\<close>

definition base40 :: "int \<times> int \<times> int" where
  "base40 = (143515065912, 1090105153401, 3)"

definition base64 :: "int \<times> int \<times> int" where
  "base64 = (2407783260063548983, 18288929621317268646, 3)"

text \<open>
  \<open>sampleCheck S (s, c, r) t\<close> compares integers only: it holds when the enclosure of
  the sine puts \<open>32767 * DAMPENING_FACTOR * sin \<theta>\<close> at least one thousandth inside the
  interval of the reals that are truncated to \<open>t\<close>.
\<close>

definition sampleCheck :: "int \<Rightarrow> int \<times> int \<times> int \<Rightarrow> int \<Rightarrow> bool" where
  "sampleCheck S tr t =
    (case tr of (s, c, r) \<Rightarrow>
      (let An = 32767 * 70794578438413791080221494218931; Ad = 10 ^ 32;
           lo = 1000 * An * (s - r); hi = 1000 * An * (s + r)
       in if 0 < t then (1000 * t + 1) * (Ad * S) \<le> lo \<and> hi < (1000 * t + 999) * (Ad * S)
          else if t < 0 then (1000 * t - 999) * (Ad * S) < lo \<and> hi \<le> (1000 * t - 1) * (Ad * S)
          else - 999 * (Ad * S) < lo \<and> hi < 999 * (Ad * S)))"

text \<open>A bounded universal quantifier that unfolds on a numeral bound.\<close>

primrec allBelow :: "nat \<Rightarrow> (nat \<Rightarrow> bool) \<Rightarrow> bool" where
  "allBelow 0 P = True"
| "allBelow (Suc n) P = (P n \<and> allBelow n P)"

section \<open>Properties of the bit-depth reducer\<close>

lemma sint16_of_32:
  "- 32768 \<le> k \<Longrightarrow> k < 32768 \<Longrightarrow> sint (ucast (word_of_int k :: int32_t) :: int16_t) = k"
  by (simp add: ucast_down_wi is_down sint_sbintrunc' signed_take_bit_int_eq_self)

lemma sint_bias:
  assumes "- 8388608 \<le> sint (w :: int32_t)" and "sint w \<le> 8388607"
  shows "sint (w + 128) = sint w + 128"
  using assms by (simp add: sint_word_add signed_take_bit_int_eq_self)

lemma sint_shift: "sint (signed_drop_bit 8 (v :: int32_t)) = sint v div 2 ^ 8"
  by (simp add: sint_signed_drop_bit_eq drop_bit_eq_div)

lemma sint_damp:
  assumes "- 32768 \<le> sint (r :: int32_t)" and "sint r \<le> 32767"
  shows "sint (r * 29204) = sint r * 29204"
  using assms by (simp add: sint_word_mult signed_take_bit_int_eq_self)

lemma damp_bounds:
  assumes "- 32768 \<le> (r :: int)" and "r \<le> 32767"
  shows "- 29204 \<le> (r * 29204) sdiv 32768 \<and> (r * 29204) sdiv 32768 \<le> 29203"
proof (cases "0 \<le> r")
  case True
  then have "(r * 29204) sdiv 32768 = (r * 29204) div 32768"
    by (simp add: signed_divide_int_def sgn_if)
  moreover have "0 \<le> (r * 29204) div 32768" and "(r * 29204) div 32768 \<le> 29203"
    using True assms by arith+
  ultimately show ?thesis by simp
next
  case False
  then have "(r * 29204) sdiv 32768 = - ((- r * 29204) div 32768)"
    by (simp add: signed_divide_int_def sgn_if mult_less_0_iff)
  moreover have "0 \<le> (- r * 29204) div 32768" and "(- r * 29204) div 32768 \<le> 29204"
    using False assms by arith+
  ultimately show ?thesis by simp
qed

lemma getTruncatedSample_sint:
  assumes "- 8388608 \<le> sint w" and "sint w \<le> 8388607"
  shows "sint (getTruncatedSample w) = reducer_spec (sint w)"
proof -
  define r1 where "r1 = signed_drop_bit 8 (w + 128)"
  define r2 where
    "r2 = (if r1 <s INT16_MIN then INT16_MIN else if INT16_MAX <s r1 then INT16_MAX else r1)"
  have s1: "sint r1 = (sint w + 128) div 2 ^ 8"
    unfolding r1_def using assms by (simp only: sint_shift sint_bias)
  have s2: "sint r2 = max (- 32768) (min 32767 (sint r1))"
    by (simp add: r2_def word_sless_alt INT16_MIN_def INT16_MAX_def)
  then have b2: "- 32768 \<le> sint r2" "sint r2 \<le> 32767"
    by simp_all
  have b3: "- 29204 \<le> (sint r2 * 29204) sdiv 32768" "(sint r2 * 29204) sdiv 32768 \<le> 29203"
    using damp_bounds [OF b2] by simp_all
  have "getTruncatedSample w =
      ucast (word_of_int (sint (r2 * 29204) sdiv sint (32768 :: int32_t)) :: int32_t)"
    by (simp add: getTruncatedSample_def Let_def r2_def r1_def)
  also have "sint \<dots> = (sint r2 * 29204) sdiv 32768"
    using b3 by (simp add: sint_damp [OF b2] sint16_of_32)
  finally show ?thesis
    by (simp add: reducer_spec_def Let_def s1 s2)
qed

lemma reducer_spec_bounds: "- 29204 \<le> reducer_spec x \<and> reducer_spec x \<le> 29203"
  unfolding reducer_spec_def Let_def by (rule damp_bounds) simp_all

text \<open>
  C3. For every input in the signed 24-bit range the value returned by
  \<open>getTruncatedSample\<close> is the one obtained in this order: add the bias 128 and shift
  right arithmetically by 8 bits, clamp to the range from -32768 to 32767, then multiply
  by 29204 and divide by 32768. The clamp comes before the damping.
\<close>

theorem getTruncatedSample_shift_clamp_damp:
  assumes "- 8388608 \<le> sint w" and "sint w \<le> 8388607"
  shows "sint (getTruncatedSample w) =
    (max (- 32768) (min 32767 ((sint w + 128) div 2 ^ 8)) * 29204) sdiv 32768"
  using getTruncatedSample_sint [OF assms] by (simp add: reducer_spec_def Let_def)

theorem getTruncatedSample_shift_clamp_damp_witness:
  "- 8388608 \<le> sint (8388607 :: int32_t) \<and> sint (8388607 :: int32_t) \<le> 8388607
   \<and> sint (getTruncatedSample 8388607) = 29203"
proof -
  have a: "- 8388608 \<le> sint (8388607 :: int32_t)" and b: "sint (8388607 :: int32_t) \<le> 8388607"
    by simp_all
  show ?thesis
    using a b getTruncatedSample_shift_clamp_damp [OF a b]
    by (simp add: signed_divide_int_def)
qed

text \<open>
  The order matters at the top of the range: the largest input is shifted to 32768, which
  the clamp takes to 32767 and the damping to 29203; damping first and clamping afterwards
  would give 29204.
\<close>

lemma clamp_before_damp_matters:
  "sint (getTruncatedSample 8388607) = 29203
   \<and> max (- 32768) (min 32767 ((((8388607 + 128) div 2 ^ 8) * 29204) sdiv 32768)) = (29204 :: int)"
  by (simp add: getTruncatedSample_sint reducer_spec_def signed_divide_int_def)

text \<open>
  C9. For every input in the signed 24-bit range the result lies between -29204 and 29203,
  so it fits the signed 16-bit range and stays more than 3500 counts away from both of
  its limits.
\<close>

theorem getTruncatedSample_headroom:
  assumes "- 8388608 \<le> sint w" and "sint w \<le> 8388607"
  shows "- 29204 \<le> sint (getTruncatedSample w) \<and> sint (getTruncatedSample w) \<le> 29203
    \<and> 3500 < 32767 - sint (getTruncatedSample w)
    \<and> 3500 < sint (getTruncatedSample w) - (- 32768)"
  using reducer_spec_bounds [of "sint w"] by (simp add: getTruncatedSample_sint [OF assms])

theorem getTruncatedSample_headroom_witness:
  "- 8388608 \<le> sint (- 8388608 :: int32_t) \<and> sint (- 8388608 :: int32_t) \<le> 8388607
   \<and> - 29204 \<le> sint (getTruncatedSample (- 8388608))
   \<and> sint (getTruncatedSample (- 8388608)) \<le> 29203
   \<and> 3500 < 32767 - sint (getTruncatedSample (- 8388608))
   \<and> 3500 < sint (getTruncatedSample (- 8388608)) - (- 32768)"
proof -
  have a: "- 8388608 \<le> sint (- 8388608 :: int32_t)"
    and b: "sint (- 8388608 :: int32_t) \<le> 8388607"
    by simp_all
  show ?thesis
    using a b getTruncatedSample_headroom [OF a b] by simp
qed

text \<open>Both bounds are reached, at the two ends of the input range.\<close>

lemma getTruncatedSample_extremes:
  "sint (getTruncatedSample 8388607) = 29203 \<and> sint (getTruncatedSample (- 8388608)) = - 29204"
  by (simp add: getTruncatedSample_sint reducer_spec_def signed_divide_int_def)

section \<open>Properties of the byte-order normalization\<close>

lemma runningOnLittleEndianHost_iff: "runningOnLittleEndianHost hostLittleEndian = hostLittleEndian"
  by (simp add: runningOnLittleEndianHost_def htonl_def)

lemma htons_swapBytes: "htons True x = swapBytes x"
  unfolding htons_def swapBytes_def lowByte_def highByte_def
  by simp (rule bit_word_eqI, auto simp add: bit_simps dest: bit_imp_le_length)

lemma htons_big_endian: "htons False x = x"
  by (simp add: htons_def)

lemma lowByte_swapBytes: "lowByte (swapBytes x) = highByte x"
  unfolding swapBytes_def lowByte_def highByte_def
  by (rule bit_word_eqI) (auto simp add: bit_simps)

lemma highByte_swapBytes: "highByte (swapBytes x) = lowByte x"
  unfolding swapBytes_def lowByte_def highByte_def
  by (rule bit_word_eqI) (auto simp add: bit_simps)

lemma htons_htons: "htons hostLittleEndian (htons hostLittleEndian x) = x"
  unfolding htons_def
  by (cases hostLittleEndian; simp) (rule bit_word_eqI, auto simp add: bit_simps)

text \<open>
  C6. On a little-endian host every sample of the array has its two bytes exchanged, on a
  big-endian host the array stays as it is. This holds for the guarded call in
  \<open>main_normalize\<close> and for \<open>prepWriteBuffer\<close>, whose guard is always true: there the
  conversion runs on every host and \<open>htons\<close> itself is the identity on a big-endian one.
\<close>

theorem normalization_follows_host_byte_order:
  "main_normalize hostLittleEndian buffer =
     (if hostLittleEndian then map swapBytes buffer else buffer)
   \<and> prepWriteBuffer hostLittleEndian p sigBuff =
     (if hostLittleEndian then map swapBytes (fillBuffer p sigBuff []) else fillBuffer p sigBuff [])
   \<and> lowByte (swapBytes x) = highByte x \<and> highByte (swapBytes x) = lowByte x"
  by (cases hostLittleEndian)
    (simp_all add: main_normalize_def prepWriteBuffer_def functionAddressNonNull_def
      runningOnLittleEndianHost_iff convToBigEndian_def htons_swapBytes htons_big_endian
      lowByte_swapBytes highByte_swapBytes map_idI)

theorem normalization_follows_host_byte_order_witness:
  "main_normalize True [0x1234, 0x00FF] = [0x3412, 0xFF00]
   \<and> main_normalize False [0x1234, 0x00FF] = [0x1234, 0x00FF]
   \<and> prepWriteBuffer False program_params [0x1234] = fillBuffer program_params [0x1234] []"
  using normalization_follows_host_byte_order [of True "[0x1234, 0x00FF]" program_params "[0x1234]" 0]
    normalization_follows_host_byte_order [of False "[0x1234, 0x00FF]" program_params "[0x1234]" 0]
  by (simp add: swapBytes_def lowByte_def highByte_def word_cat_eq)

text \<open>
  C8. Normalizing twice gives back the original array, on either kind of host.
\<close>

theorem convToBigEndian_involution:
  "convToBigEndian hostLittleEndian (convToBigEndian hostLittleEndian x) = x
   \<and> main_normalize hostLittleEndian (main_normalize hostLittleEndian x) = x"
  by (simp add: main_normalize_def convToBigEndian_def htons_htons map_idI)

section \<open>Properties of the segmenter\<close>

lemma take_drop_slice: "b \<le> length xs \<Longrightarrow> take (b - a) (drop a xs) = slice xs a b"
  by (rule nth_equalityI) (auto simp add: slice_def)

lemma length_slice: "length (slice xs a b) = b - a"
  by (simp add: slice_def)

lemma take_slice: "b \<le> length xs \<Longrightarrow> take b xs = slice xs 0 b"
  using take_drop_slice [of b xs 0] by simp

text \<open>
  C1. With a frame of \<open>writeFrameSize * channels\<close> samples that is no longer than the
  buffer and a cursor inside the buffer: when the frame ends at or before the end of the
  buffer, the frame handed to the sink is the contiguous slice from the cursor and the
  state is unchanged; otherwise it is the tail of the buffer from the cursor followed by
  the first \<open>headCount\<close> samples of the buffer, where \<open>headCount\<close> is the frame size
  minus the number of tail samples, and the cursor kept for the next pass
  (\<open>writePosReminder\<close>) is set to \<open>headCount\<close>.
\<close>

theorem nextFrame_slice_or_splice:
  assumes "writeFrameSize * channels \<le> length buffer" and "writePos st < length buffer"
  shows "nextFrame writeFrameSize channels buffer st =
    (if writePos st + writeFrameSize * channels \<le> length buffer
     then (slice buffer (writePos st) (writePos st + writeFrameSize * channels), st)
     else (slice buffer (writePos st) (length buffer)
             @ slice buffer 0 (writeFrameSize * channels - (length buffer - writePos st)),
           st\<lparr>writePosReminder := writeFrameSize * channels - (length buffer - writePos st)\<rparr>))"
proof (cases "writePos st + writeFrameSize * channels \<le> length buffer")
  case True
  then show ?thesis
    using take_drop_slice [of "writePos st + writeFrameSize * channels" buffer "writePos st"]
    by (simp add: nextFrame_def Let_def)
next
  case False
  have "take (length buffer - writePos st) (drop (writePos st) buffer)
      = slice buffer (writePos st) (length buffer)"
    by (rule take_drop_slice) simp
  moreover have "take (writeFrameSize * channels - (length buffer - writePos st)) buffer
      = slice buffer 0 (writeFrameSize * channels - (length buffer - writePos st))"
    using assms by (intro take_slice) simp
  ultimately show ?thesis
    using False by (simp add: nextFrame_def Let_def length_slice)
qed

theorem nextFrame_slice_or_splice_witness:
  "nextFrame 2 2 [10, 11, 12, 13, 14, 15 :: nat] \<lparr>writePos = 0, writePosReminder = 0\<rparr>
     = ([10, 11, 12, 13], \<lparr>writePos = 0, writePosReminder = 0\<rparr>)
   \<and> nextFrame 2 2 [10, 11, 12, 13, 14, 15 :: nat] \<lparr>writePos = 4, writePosReminder = 0\<rparr>
     = ([14, 15, 10, 11], \<lparr>writePos = 4, writePosReminder = 2\<rparr>)"
  using nextFrame_slice_or_splice [of 2 2 "[10, 11, 12, 13, 14, 15 :: nat]" "\<lparr>writePos = 0, writePosReminder = 0\<rparr>"]
    nextFrame_slice_or_splice [of 2 2 "[10, 11, 12, 13, 14, 15 :: nat]" "\<lparr>writePos = 4, writePosReminder = 0\<rparr>"]
  by (simp add: slice_def upt_rec)



text \<open>
  C2. A ring of six samples, frames of two stereo samples, every write complete. The
  first pass wraps and leaves the cursor 2; the second pass starts at 2 and ends exactly
  at the end of the buffer, so nothing resets \<open>writePosReminder\<close>; the third pass starts
  at 2 again instead of 0. The fourth frame repeats the third, where the ring read
  cyclically goes on with the samples at offsets 0 to 3.
\<close>

theorem playback_stale_reminder:
  "concat (playback 30 2 2 [0, 1, 2, 3, 4, 5 :: uint16_t] (replicate 4 (fullWrite 2)))
     = [0, 1, 2, 3, 4, 5, 0, 1, 2, 3, 4, 5, 2, 3, 4, 5]
   \<and> ringCycle [0, 1, 2, 3, 4, 5 :: uint16_t] (4 * 2 * 2)
     = [0, 1, 2, 3, 4, 5, 0, 1, 2, 3, 4, 5, 0, 1, 2, 3]
   \<and> concat (playback 30 2 2 [0, 1, 2, 3, 4, 5 :: uint16_t] (replicate 4 (fullWrite 2)))
     \<noteq> ringCycle [0, 1, 2, 3, 4, 5 :: uint16_t] (4 * 2 * 2)"
proof -
  have a: "concat (playback 30 2 2 [0, 1, 2, 3, 4, 5 :: uint16_t] (replicate 4 (fullWrite 2)))
      = [0, 1, 2, 3, 4, 5, 0, 1, 2, 3, 4, 5, 2, 3, 4, 5]"
    by code_simp
  have b: "ringCycle [0, 1, 2, 3, 4, 5 :: uint16_t] (4 * 2 * 2)
      = [0, 1, 2, 3, 4, 5, 0, 1, 2, 3, 4, 5, 0, 1, 2, 3]"
    by code_simp
  show ?thesis
    unfolding a b by simp
qed

text \<open>
  The same defect with the constants of the program. The lemmas describe a pass in which
  every write is complete: some frames that fit, then either a frame that wraps or the
  exact end of the buffer.
\<close>

lemma innerLoop_done:
  "length buffer \<le> writePos st \<Longrightarrow> innerLoop F N buffer rps st = ([], st, rps)"
  by (cases rps) simp_all

lemma loopBody_fullWrite:
  "loopBody F N buffer (fullWrite F) st =
    (fst (nextFrame F N buffer st),
     (snd (nextFrame F N buffer st))\<lparr>writePos := writePos (snd (nextFrame F N buffer st)) + F * N\<rparr>,
     True)"
  by (simp add: loopBody_def fullWrite_def framesWritten_def split_beta)

lemma innerLoop_full_step:
  assumes "w + F * N \<le> length buffer" and "w < length buffer"
  shows "innerLoop F N buffer (fullWrite F # rps) \<lparr>writePos = w, writePosReminder = r\<rparr> =
    (case innerLoop F N buffer rps \<lparr>writePos = w + F * N, writePosReminder = r\<rparr> of
       (fs, st, rest) \<Rightarrow> (take (F * N) (drop w buffer) # fs, st, rest))"
  using assms by (simp add: loopBody_fullWrite nextFrame_def Let_def)

lemma innerLoop_full_wrap:
  assumes "length buffer < w + F * N" and "w < length buffer"
  shows "innerLoop F N buffer (fullWrite F # rps) \<lparr>writePos = w, writePosReminder = r\<rparr> =
    ([drop w buffer @ take (F * N - (length buffer - w)) buffer],
     \<lparr>writePos = w + F * N, writePosReminder = F * N - (length buffer - w)\<rparr>, rps)"
  using assms by (simp add: loopBody_fullWrite nextFrame_def Let_def innerLoop_done)

lemma innerLoop_full_steps:
  assumes "0 < F * N" and "w + m * (F * N) \<le> length buffer"
  shows "innerLoop F N buffer (replicate m (fullWrite F) @ rps) \<lparr>writePos = w, writePosReminder = r\<rparr> =
    (case innerLoop F N buffer rps \<lparr>writePos = w + m * (F * N), writePosReminder = r\<rparr> of
       (fs, st, rest) \<Rightarrow> (map (\<lambda>i. take (F * N) (drop (w + i * (F * N)) buffer)) [0..<m] @ fs, st, rest))"
  using assms(2)
proof (induction m arbitrary: w)
  case 0
  then show ?case by (simp add: split_beta)
next
  case (Suc m)
  define K where "K = F * N"
  have "0 < K" and "w + Suc m * K \<le> length buffer"
    using Suc.prems assms(1) by (simp_all add: K_def)
  then have "w + K \<le> length buffer" and "w < length buffer" and "(w + K) + m * K \<le> length buffer"
    by simp_all
  then have a: "w + F * N \<le> length buffer" and b: "w < length buffer"
    and c: "(w + F * N) + m * (F * N) \<le> length buffer"
    by (simp_all add: K_def)
  have sh: "map (\<lambda>i. take (F * N) (drop (w + i * (F * N)) buffer)) [0..<Suc m]
      = take (F * N) (drop w buffer) # map (\<lambda>i. take (F * N) (drop (w + F * N + i * (F * N)) buffer)) [0..<m]"
    by (simp add: upt_conv_Cons map_Suc_upt [symmetric] add.assoc del: upt_Suc)
  show ?case
    unfolding replicate_Suc append_Cons innerLoop_full_step [OF a b] Suc.IH [OF c] sh
    by (simp add: split_beta add.assoc)
qed


lemma pass_wrapping:
  assumes "0 < F * N" and "w + m * (F * N) < length buffer"
    and "length buffer < w + m * (F * N) + F * N"
  shows "innerLoop F N buffer (replicate m (fullWrite F) @ fullWrite F # rps)
      \<lparr>writePos = w, writePosReminder = r\<rparr> =
    (map (\<lambda>i. take (F * N) (drop (w + i * (F * N)) buffer)) [0..<m]
       @ [drop (w + m * (F * N)) buffer
            @ take (F * N - (length buffer - (w + m * (F * N)))) buffer],
     \<lparr>writePos = w + m * (F * N) + F * N,
      writePosReminder = F * N - (length buffer - (w + m * (F * N)))\<rparr>, rps)"
proof -
  have le: "w + m * (F * N) \<le> length buffer"
    using assms(2) by simp
  show ?thesis
    unfolding innerLoop_full_steps [OF assms(1) le] innerLoop_full_wrap [OF assms(3) assms(2)]
    by simp
qed

lemma pass_exact:
  assumes "0 < F * N" and "w + m * (F * N) = length buffer"
  shows "innerLoop F N buffer (replicate m (fullWrite F) @ rps)
      \<lparr>writePos = w, writePosReminder = r\<rparr> =
    (map (\<lambda>i. take (F * N) (drop (w + i * (F * N)) buffer)) [0..<m],
     \<lparr>writePos = length buffer, writePosReminder = r\<rparr>, rps)"
proof -
  have le: "w + m * (F * N) \<le> length buffer"
    using assms(2) by simp
  show ?thesis
    unfolding innerLoop_full_steps [OF assms(1) le]
    by (simp add: innerLoop_done assms(2))
qed

lemma outerLoop_no_replies: "outerLoop n F N buffer [] r = []"
  by (induction n arbitrary: r) simp_all

text \<open>
  The constants of the program: a buffer of 96000 samples and frames of 1152 stereo
  samples. The first two passes wrap and leave the cursors 768 and 1536; the third pass
  starts at 1536 and ends exactly at 96000, after 125 frames in all, that is three whole
  turns of the ring. The next frame is read from offset 1536, not from offset 0.
\<close>

lemma shipped_constants_fourth_pass:
  assumes "length buffer = 96000"
  shows "playback 30 1152 2 buffer (replicate 126 (fullWrite 1152)) ! 125
    = take 2304 (drop 1536 buffer)"
proof -
  let ?f = "fullWrite 1152"
  have r: "replicate 126 ?f
      = replicate 41 ?f @ ?f # (replicate 41 ?f @ ?f # (replicate 41 ?f @ (replicate 1 ?f @ [])))"
    by (simp add: replicate_add [symmetric] flip: replicate_Suc replicate_append_same)
  have n: "(30 :: nat) = Suc (Suc (Suc (Suc 26)))"
    by simp
  have p1: "innerLoop 1152 2 buffer (replicate 41 ?f @ ?f # rps) \<lparr>writePos = 0, writePosReminder = 0\<rparr>
      = (map (\<lambda>i. take (1152 * 2) (drop (0 + i * (1152 * 2)) buffer)) [0..<41]
           @ [drop (0 + 41 * (1152 * 2)) buffer @ take (1152 * 2 - (length buffer - (0 + 41 * (1152 * 2)))) buffer],
         \<lparr>writePos = 0 + 41 * (1152 * 2) + 1152 * 2,
          writePosReminder = 1152 * 2 - (length buffer - (0 + 41 * (1152 * 2)))\<rparr>, rps)" for rps
    by (rule pass_wrapping) (simp_all add: assms)
  have p2: "innerLoop 1152 2 buffer (replicate 41 ?f @ ?f # rps) \<lparr>writePos = 768, writePosReminder = 768\<rparr>
      = (map (\<lambda>i. take (1152 * 2) (drop (768 + i * (1152 * 2)) buffer)) [0..<41]
           @ [drop (768 + 41 * (1152 * 2)) buffer @ take (1152 * 2 - (length buffer - (768 + 41 * (1152 * 2)))) buffer],
         \<lparr>writePos = 768 + 41 * (1152 * 2) + 1152 * 2,
          writePosReminder = 1152 * 2 - (length buffer - (768 + 41 * (1152 * 2)))\<rparr>, rps)" for rps
    by (rule pass_wrapping) (simp_all add: assms)
  have p3: "innerLoop 1152 2 buffer (replicate 41 ?f @ rps) \<lparr>writePos = 1536, writePosReminder = 1536\<rparr>
      = (map (\<lambda>i. take (1152 * 2) (drop (1536 + i * (1152 * 2)) buffer)) [0..<41],
         \<lparr>writePos = length buffer, writePosReminder = 1536\<rparr>, rps)" for rps
    by (rule pass_exact) (simp_all add: assms)
  have p4: "innerLoop 1152 2 buffer [?f] \<lparr>writePos = 1536, writePosReminder = 1536\<rparr>
      = ([take 2304 (drop 1536 buffer)], \<lparr>writePos = 3840, writePosReminder = 1536\<rparr>, [])"
    using innerLoop_full_step [of 1536 1152 2 buffer "[]" 1536] by (simp add: assms)
  have "playback 30 1152 2 buffer (replicate 126 ?f)
      = (map (\<lambda>i. take 2304 (drop (i * 2304) buffer)) [0..<41]
          @ [drop 94464 buffer @ take 768 buffer])
        @ (map (\<lambda>i. take 2304 (drop (768 + i * 2304) buffer)) [0..<41]
          @ [drop 95232 buffer @ take 1536 buffer])
        @ map (\<lambda>i. take 2304 (drop (1536 + i * 2304) buffer)) [0..<41]
        @ [take 2304 (drop 1536 buffer)]"
    unfolding playback_def r n outerLoop.simps p1 prod.case Let_def
    by (simp add: assms p2 p3 p4 outerLoop_no_replies del: innerLoop.simps)
  then show ?thesis
    by (simp add: nth_append)
qed


lemma ringCycle_drop:
  assumes "a \<le> n"
  shows "drop a (ringCycle ring n) = map (\<lambda>i. ring ! ((a + i) mod length ring)) [0..<n - a]"
proof (rule nth_equalityI)
  show "length (drop a (ringCycle ring n))
      = length (map (\<lambda>i. ring ! ((a + i) mod length ring)) [0..<n - a])"
    by (simp add: ringCycle_def)
next
  fix i assume "i < length (drop a (ringCycle ring n))"
  then have "a + i < n" by (simp add: ringCycle_def)
  then show "drop a (ringCycle ring n) ! i
      = map (\<lambda>i. ring ! ((a + i) mod length ring)) [0..<n - a] ! i"
    using assms by (simp add: ringCycle_def)
qed

lemma ringCycle_whole_turns:
  assumes "a = k * length ring" and "a \<le> n" and "n - a \<le> length ring"
  shows "drop a (ringCycle ring n) = take (n - a) ring"
proof -
  have "map (\<lambda>i. ring ! ((a + i) mod length ring)) [0..<n - a] = map (\<lambda>i. ring ! i) [0..<n - a]"
    using assms(1,3) by (intro map_cong) simp_all
  also have "\<dots> = take (n - a) ring"
    using assms(3) by (intro nth_equalityI) simp_all
  finally show ?thesis
    by (simp only: ringCycle_drop [OF assms(2)])
qed

lemma shipped_constants_cyclic_reference:
  assumes "length buffer = 96000"
  shows "drop (125 * 2304) (ringCycle buffer (126 * 2304)) = take 2304 buffer"
  using ringCycle_whole_turns [of "125 * 2304" 3 buffer "126 * 2304"] assms by simp

section \<open>Soundness of the enclosures\<close>

lemma prod_err:
  fixes A B :: real
  assumes S: "0 < S" and A: "\<bar>A\<bar> \<le> S" and a: "\<bar>A - a\<bar> \<le> ra" and b: "\<bar>B - b\<bar> \<le> rb" and B: "\<bar>B\<bar> \<le> S"
  shows "\<bar>A * B / S - a * b / S\<bar> \<le> ra + rb + ra * rb / S"
proof -
  have ra0: "0 \<le> ra" and rb0: "0 \<le> rb" using a b by linarith+
  have "A * B - a * b = A * (B - b) + b * (A - a)" by (simp add: algebra_simps)
  then have "\<bar>A * B - a * b\<bar> \<le> \<bar>A\<bar> * \<bar>B - b\<bar> + \<bar>b\<bar> * \<bar>A - a\<bar>"
    by (metis abs_mult abs_triangle_ineq)
  also have "\<dots> \<le> S * rb + (S + rb) * ra"
  proof -
    have "\<bar>b\<bar> \<le> S + rb" using b B by linarith
    then have "\<bar>b\<bar> * \<bar>A - a\<bar> \<le> (S + rb) * ra"
      using a by (intro mult_mono) (auto simp: S ra0 rb0 less_imp_le)
    moreover have "\<bar>A\<bar> * \<bar>B - b\<bar> \<le> S * rb"
      using A b by (intro mult_mono) (auto simp: S less_imp_le)
    ultimately show ?thesis by linarith
  qed
  finally have "\<bar>A * B - a * b\<bar> / S \<le> (S * rb + (S + rb) * ra) / S"
    using S by (simp add: divide_right_mono)
  moreover have "\<bar>A * B / S - a * b / S\<bar> = \<bar>A * B - a * b\<bar> / S"
    using S by (simp add: diff_divide_distrib [symmetric])
  moreover have "(S * rb + (S + rb) * ra) / S = ra + rb + ra * rb / S"
    using S by (simp add: field_simps)
  ultimately show ?thesis by simp
qed

lemma floor_div_err:
  assumes "0 < (S::int)"
  shows "\<bar>real_of_int k / real_of_int S - real_of_int (k div S)\<bar> \<le> 1"
proof -
  have "real_of_int (k div S) = real_of_int \<lfloor>real_of_int k / real_of_int S\<rfloor>"
    by (simp add: floor_divide_of_int_eq)
  then show ?thesis by linarith
qed

lemma combine_add:
  fixes P Q p q f m e g :: real
  assumes "\<bar>P - p\<bar> \<le> m + e" and "\<bar>Q - q\<bar> \<le> m + e" and "\<bar>p + q - f\<bar> \<le> 1" and "2 * e \<le> g + 1"
  shows "\<bar>P + Q - f\<bar> \<le> 2 * m + g + 2"
  using assms by linarith

lemma combine_diff:
  fixes P Q p q f m e g :: real
  assumes "\<bar>P - p\<bar> \<le> m + e" and "\<bar>Q - q\<bar> \<le> m + e" and "\<bar>p - q - f\<bar> \<le> 1" and "2 * e \<le> g + 1"
  shows "\<bar>P - Q - f\<bar> \<le> 2 * m + g + 2"
  using assms by linarith

lemma trigAdd_ok:
  assumes S: "0 < S" and 1: "approxOK S t1 \<theta>1" and 2: "approxOK S t2 \<theta>2"
  shows "approxOK S (trigAdd S t1 t2) (\<theta>1 + \<theta>2)"
proof -
  obtain s1 c1 r1 where t1: "t1 = (s1, c1, r1)" by (cases t1)
  obtain s2 c2 r2 where t2: "t2 = (s2, c2, r2)" by (cases t2)
  let ?S = "real_of_int S"
  have S': "0 < ?S" using S by simp
  have a1: "\<bar>?S * sin \<theta>1 - s1\<bar> \<le> r1" and b1: "\<bar>?S * cos \<theta>1 - c1\<bar> \<le> r1"
    and a2: "\<bar>?S * sin \<theta>2 - s2\<bar> \<le> r2" and b2: "\<bar>?S * cos \<theta>2 - c2\<bar> \<le> r2"
    using 1 2 by (simp_all add: approxOK_def t1 t2)
  have bs: "\<bar>?S * sin x\<bar> \<le> ?S" "\<bar>?S * cos x\<bar> \<le> ?S" for x
    using S' by (simp_all add: abs_mult)
  have r12: "2 * (real_of_int r1 * real_of_int r2 / ?S) \<le> real_of_int ((2 * r1 * r2) div S) + 1"
  proof -
    have "real_of_int (2 * r1 * r2) / ?S \<le> real_of_int ((2 * r1 * r2) div S) + 1"
      using floor_div_err [OF S, of "2 * r1 * r2"] by linarith
    then show ?thesis by simp
  qed
  let ?r = "real_of_int r1 + real_of_int r2 + real_of_int r1 * real_of_int r2 / ?S"
  have p1: "\<bar>(?S * sin \<theta>1) * (?S * cos \<theta>2) / ?S - real_of_int s1 * real_of_int c2 / ?S\<bar> \<le> ?r"
    by (rule prod_err [OF S' bs(1) a1 b2 bs(2)])
  have p2: "\<bar>(?S * cos \<theta>1) * (?S * sin \<theta>2) / ?S - real_of_int c1 * real_of_int s2 / ?S\<bar> \<le> ?r"
    by (rule prod_err [OF S' bs(2) b1 a2 bs(1)])
  have p3: "\<bar>(?S * cos \<theta>1) * (?S * cos \<theta>2) / ?S - real_of_int c1 * real_of_int c2 / ?S\<bar> \<le> ?r"
    by (rule prod_err [OF S' bs(2) b1 b2 bs(2)])
  have p4: "\<bar>(?S * sin \<theta>1) * (?S * sin \<theta>2) / ?S - real_of_int s1 * real_of_int s2 / ?S\<bar> \<le> ?r"
    by (rule prod_err [OF S' bs(1) a1 a2 bs(1)])
  have es: "?S * sin (\<theta>1 + \<theta>2) = (?S * sin \<theta>1) * (?S * cos \<theta>2) / ?S + (?S * cos \<theta>1) * (?S * sin \<theta>2) / ?S"
    using S' by (simp add: sin_add field_simps)
  have ec: "?S * cos (\<theta>1 + \<theta>2) = (?S * cos \<theta>1) * (?S * cos \<theta>2) / ?S - (?S * sin \<theta>1) * (?S * sin \<theta>2) / ?S"
    using S' by (simp add: cos_add field_simps)
  have fs: "\<bar>real_of_int (s1 * c2 + c1 * s2) / ?S - real_of_int ((s1 * c2 + c1 * s2) div S)\<bar> \<le> 1"
    by (rule floor_div_err [OF S])
  have fc: "\<bar>real_of_int (c1 * c2 - s1 * s2) / ?S - real_of_int ((c1 * c2 - s1 * s2) div S)\<bar> \<le> 1"
    by (rule floor_div_err [OF S])
  have ds: "real_of_int (s1 * c2 + c1 * s2) / ?S
      = real_of_int s1 * real_of_int c2 / ?S + real_of_int c1 * real_of_int s2 / ?S"
    by (simp add: add_divide_distrib)
  have dc: "real_of_int (c1 * c2 - s1 * s2) / ?S
      = real_of_int c1 * real_of_int c2 / ?S - real_of_int s1 * real_of_int s2 / ?S"
    by (simp add: diff_divide_distrib)
  have "\<bar>?S * sin (\<theta>1 + \<theta>2) - real_of_int ((s1 * c2 + c1 * s2) div S)\<bar>
      \<le> 2 * (real_of_int r1 + real_of_int r2) + real_of_int ((2 * r1 * r2) div S) + 2"
    unfolding es by (rule combine_add [OF p1 p2 fs [unfolded ds] r12])
  moreover have "\<bar>?S * cos (\<theta>1 + \<theta>2) - real_of_int ((c1 * c2 - s1 * s2) div S)\<bar>
      \<le> 2 * (real_of_int r1 + real_of_int r2) + real_of_int ((2 * r1 * r2) div S) + 2"
    unfolding ec by (rule combine_diff [OF p3 p4 fc [unfolded dc] r12])
  ultimately show ?thesis
    by (simp add: approxOK_def trigAdd_def t1 t2)
qed

lemma numeral_Bit0_mult: "numeral (num.Bit0 n) * x = numeral n * x + numeral n * (x::real)"
  by (simp only: numeral_Bit0 distrib_right)

lemma numeral_Bit1_mult: "numeral (num.Bit1 n) * x = (numeral n * x + numeral n * x) + (x::real)"
  by (simp only: numeral_Bit1 distrib_right mult_1)

lemma trigApprox_ok:
  assumes "0 < S" and "approxOK S b x"
  shows "approxOK S (trigApprox S b n) (numeral n * x)"
proof (induction n)
  case One
  then show ?case using assms by simp
next
  case (Bit0 n)
  show ?case
    unfolding trigApprox.simps trigDouble_def numeral_Bit0_mult
    by (rule trigAdd_ok [OF assms(1) Bit0 Bit0])
next
  case (Bit1 n)
  show ?case
    unfolding trigApprox.simps trigDouble_def numeral_Bit1_mult
    by (rule trigAdd_ok [OF assms(1) trigAdd_ok [OF assms(1) Bit1 Bit1] assms(2)])
qed

section \<open>Taylor polynomials\<close>

lemma horner_term:
  fixes x p X A F G :: real
  assumes "A \<noteq> 0"
  shows "x * x / A * (p * X * (A * F) / G) = - (- 1 * p * (X * x * x) * F / G)"
  using assms by (simp add: field_simps)

lemma taylorH_sum:
  "taylorH n c x = (\<Sum>i\<le>n. (- 1) ^ i * x ^ (2 * i) * fact c / fact (c + 2 * i))"
proof (induction n arbitrary: c)
  case 0
  then show ?case by simp
next
  case (Suc n)
  have f2: "(fact (c + 2) :: real) = real (c + 1) * real (c + 2) * fact c"
    by (simp add: numeral_2_eq_2)
  have tm: "x * x / (real (c + 1) * real (c + 2)) * ((- 1) ^ i * x ^ (2 * i) * fact (c + 2) / fact (c + 2 + 2 * i))
      = - ((- 1) ^ Suc i * x ^ (2 * Suc i) * fact c / fact (c + 2 * Suc i))" for i
  proof -
    have e: "c + 2 * Suc i = c + 2 + 2 * i" by simp
    have p: "x ^ (2 * Suc i) = x ^ (2 * i) * x * x" by simp
    have nz: "real (c + 1) * real (c + 2) \<noteq> 0" by simp
    show ?thesis
      unfolding f2 e p power_Suc [of "- 1 :: real" i]
      by (rule horner_term [OF nz])
  qed
  have "taylorH (Suc n) c x = 1 - (\<Sum>i\<le>n. x * x / (real (c + 1) * real (c + 2))
          * ((- 1) ^ i * x ^ (2 * i) * fact (c + 2) / fact (c + 2 + 2 * i)))"
    by (simp only: taylorH.simps Suc.IH sum_distrib_left)
  also have "\<dots> = 1 + (\<Sum>i\<le>n. (- 1) ^ Suc i * x ^ (2 * Suc i) * fact c / fact (c + 2 * Suc i))"
    by (simp only: tm sum_negf diff_minus_eq_add)
  also have "\<dots> = (\<Sum>i\<le>Suc n. (- 1) ^ i * x ^ (2 * i) * fact c / fact (c + 2 * i))"
    by (simp add: sum.atMost_Suc_shift del: sum.atMost_Suc)
  finally show ?case .
qed

lemma sin_coeff_sum_step:
  "(\<Sum>m<2 * Suc n. sin_coeff m * x ^ m)
     = (\<Sum>m<2 * n. sin_coeff m * x ^ m) + (- 1) ^ n * x ^ (2 * n + 1) / fact (2 * n + 1)"
  for x :: real
  by (simp add: sin_coeff_def)

lemma cos_coeff_sum_step:
  "(\<Sum>m<2 * Suc n. cos_coeff m * x ^ m)
     = (\<Sum>m<2 * n. cos_coeff m * x ^ m) + (- 1) ^ n * x ^ (2 * n) / fact (2 * n)"
  for x :: real
  by (simp add: cos_coeff_def)

lemma sin_coeff_sum:
  "(\<Sum>m<2 * n. sin_coeff m * x ^ m) = (\<Sum>i<n. (- 1) ^ i * x ^ (2 * i + 1) / fact (2 * i + 1))"
  for x :: real
proof (induction n)
  case 0
  then show ?case by simp
next
  case (Suc n)
  show ?case unfolding sin_coeff_sum_step Suc.IH by simp
qed

lemma cos_coeff_sum:
  "(\<Sum>m<2 * n. cos_coeff m * x ^ m) = (\<Sum>i<n. (- 1) ^ i * x ^ (2 * i) / fact (2 * i))"
  for x :: real
proof (induction n)
  case 0
  then show ?case by simp
next
  case (Suc n)
  show ?case unfolding cos_coeff_sum_step Suc.IH by simp
qed

lemma Maclaurin_cos_bound: "\<bar>cos x - (\<Sum>m<n. cos_coeff m * x ^ m)\<bar> \<le> \<bar>x\<bar> ^ n / fact n"
proof -
  obtain t where "cos x = (\<Sum>m<n. cos_coeff m * x ^ m) + (cos (t + 1 / 2 * real n * pi) / fact n) * x ^ n"
    using Maclaurin_cos_expansion [of x n] by blast
  then have "\<bar>cos x - (\<Sum>m<n. cos_coeff m * x ^ m)\<bar> = \<bar>cos (t + 1 / 2 * real n * pi)\<bar> * (\<bar>x\<bar> ^ n / fact n)"
    by (simp add: abs_mult power_abs)
  also have "\<dots> \<le> 1 * (\<bar>x\<bar> ^ n / fact n)"
    by (intro mult_right_mono) simp_all
  finally show ?thesis by simp
qed

lemma sin_taylorH: "\<bar>sin x - x * taylorH n 1 x\<bar> \<le> \<bar>x\<bar> ^ (2 * Suc n) / fact (2 * Suc n)"
proof -
  have "x * taylorH n 1 x = (\<Sum>m<2 * Suc n. sin_coeff m * x ^ m)"
    unfolding sin_coeff_sum taylorH_sum sum_distrib_left lessThan_Suc_atMost
    by (rule sum.cong) (simp_all add: field_simps)
  then show ?thesis
    using Maclaurin_sin_bound [of x "2 * Suc n"] by (simp add: divide_inverse mult.commute)
qed

lemma cos_taylorH: "\<bar>cos x - taylorH n 0 x\<bar> \<le> \<bar>x\<bar> ^ (2 * Suc n) / fact (2 * Suc n)"
proof -
  have "taylorH n 0 x = (\<Sum>m<2 * Suc n. cos_coeff m * x ^ m)"
    unfolding cos_coeff_sum taylorH_sum lessThan_Suc_atMost by simp
  then show ?thesis
    using Maclaurin_cos_bound [of x "2 * Suc n"] by simp
qed

lemma horner_frac:
  fixes a q E N D :: real
  assumes "q \<noteq> 0" and "E \<noteq> 0" and "D \<noteq> 0"
  shows "1 - (a / q) * (a / q) / E * (N / D) = (q * q * E * D - a * a * N) / (q * q * E * D)"
  using assms by (simp add: field_simps)

lemma taylorFrac_ok:
  assumes "0 < q" and "taylorFrac n c a q = (N, D)"
  shows "0 < D \<and> taylorH n c (real_of_int a / real_of_int q) = real_of_int N / real_of_int D"
  using assms(2)
proof (induction n arbitrary: c N D)
  case 0
  then show ?case by simp
next
  case (Suc n)
  obtain N' D' where nd: "taylorFrac n (c + 2) a q = (N', D')"
    by (cases "taylorFrac n (c + 2) a q")
  from Suc.IH [OF nd] have D': "0 < D'"
    and h: "taylorH n (c + 2) (real_of_int a / real_of_int q) = real_of_int N' / real_of_int D'"
    by simp_all
  define E where "E = int ((c + 1) * (c + 2))"
  have "0 < (c + 1) * (c + 2)" by simp
  then have E: "0 < E" unfolding E_def by (simp only: of_nat_0_less_iff)
  have Er: "real (c + 1) * real (c + 2) = real_of_int E"
    by (simp add: E_def algebra_simps)
  from Suc.prems [unfolded taylorFrac.simps nd prod.case prod.inject, folded E_def]
  have N: "N = q * q * E * D' - a * a * N'" and D: "D = q * q * E * D'"
    by simp_all
  have "0 < D" unfolding D using assms(1) D' E by (intro mult_pos_pos)
  moreover have "taylorH (Suc n) c (real_of_int a / real_of_int q) = real_of_int N / real_of_int D"
    unfolding taylorH.simps h N D Er of_int_diff of_int_mult
    using assms(1) D' E by (intro horner_frac) simp_all
  ultimately show ?case by simp
qed

lemma rem_bound:
  assumes q: "0 < q" and "S * \<bar>a\<bar> ^ m \<le> r * fact m * q ^ m"
  shows "real_of_int S * (\<bar>real_of_int a / real_of_int q\<bar> ^ m / fact m) \<le> real_of_int r"
proof -
  have "real_of_int (S * \<bar>a\<bar> ^ m) \<le> real_of_int (r * fact m * q ^ m)"
    using assms(2) by (simp only: of_int_le_iff)
  then have "real_of_int S * \<bar>real_of_int a\<bar> ^ m \<le> real_of_int r * (fact m * real_of_int q ^ m)"
    by (simp add: mult.assoc)
  moreover have "0 < fact m * real_of_int q ^ m"
    using q by simp
  ultimately have "real_of_int S * \<bar>real_of_int a\<bar> ^ m / (fact m * real_of_int q ^ m) \<le> real_of_int r"
    by (simp only: pos_divide_le_eq)
  moreover have "\<bar>real_of_int a / real_of_int q\<bar> ^ m = \<bar>real_of_int a\<bar> ^ m / real_of_int q ^ m"
    using q by (simp add: power_divide)
  ultimately show ?thesis by (simp add: mult.commute)
qed

lemma scale_abs:
  fixes S u v b :: real
  assumes "0 < S" and "\<bar>u - v\<bar> \<le> b"
  shows "\<bar>S * u - S * v\<bar> \<le> S * b"
proof -
  have "\<bar>S * u - S * v\<bar> = S * \<bar>u - v\<bar>"
    using assms(1) by (simp add: right_diff_distrib [symmetric] abs_mult)
  then show ?thesis
    using assms by simp
qed

lemma abs_via:
  fixes X Y s r e r2 :: real
  assumes "\<bar>Y - s\<bar> \<le> r" and "\<bar>X - Y\<bar> \<le> e" and "e \<le> r2"
  shows "\<bar>X - s\<bar> \<le> r + r2"
  using assms by linarith

lemma base_ok:
  assumes q: "0 < q" and S: "0 < S"
    and fs: "taylorFrac n 1 a q = (Ns, Ds)" and fc: "taylorFrac n 0 a q = (Nc, Dc)"
    and es: "\<bar>S * a * Ns - s * q * Ds\<bar> \<le> r1 * q * Ds"
    and ec: "\<bar>S * Nc - c * Dc\<bar> \<le> r1 * Dc"
    and er: "S * \<bar>a\<bar> ^ (2 * Suc n) \<le> r2 * fact (2 * Suc n) * q ^ (2 * Suc n)"
  shows "approxOK S (s, c, r1 + r2) (real_of_int a / real_of_int q)"
proof -
  let ?x = "real_of_int a / real_of_int q"
  from taylorFrac_ok [OF q fs] have Ds: "0 < Ds" and hs: "taylorH n 1 ?x = real_of_int Ns / real_of_int Ds"
    by simp_all
  from taylorFrac_ok [OF q fc] have Dc: "0 < Dc" and hc: "taylorH n 0 ?x = real_of_int Nc / real_of_int Dc"
    by simp_all
  have rem: "real_of_int S * (\<bar>?x\<bar> ^ (2 * Suc n) / fact (2 * Suc n)) \<le> real_of_int r2"
    by (rule rem_bound [OF q er])
  have "\<bar>real_of_int (S * a * Ns - s * q * Ds)\<bar> \<le> real_of_int (r1 * q * Ds)"
    using es by (simp only: of_int_abs [symmetric] of_int_le_iff)
  then have s1: "\<bar>real_of_int S * (?x * (real_of_int Ns / real_of_int Ds)) - real_of_int s\<bar> \<le> real_of_int r1"
    using q Ds by (simp add: field_simps)
  have s2: "\<bar>real_of_int S * sin ?x - real_of_int S * (?x * taylorH n 1 ?x)\<bar>
      \<le> real_of_int S * (\<bar>?x\<bar> ^ (2 * Suc n) / fact (2 * Suc n))"
    using S by (intro scale_abs sin_taylorH) simp
  have A: "\<bar>real_of_int S * sin ?x - real_of_int s\<bar> \<le> real_of_int r1 + real_of_int r2"
    by (rule abs_via [OF s1 s2 [unfolded hs] rem])
  have "\<bar>real_of_int (S * Nc - c * Dc)\<bar> \<le> real_of_int (r1 * Dc)"
    using ec by (simp only: of_int_abs [symmetric] of_int_le_iff)
  then have c1: "\<bar>real_of_int S * (real_of_int Nc / real_of_int Dc) - real_of_int c\<bar> \<le> real_of_int r1"
    using Dc by (simp add: field_simps)
  have c2: "\<bar>real_of_int S * cos ?x - real_of_int S * taylorH n 0 ?x\<bar>
      \<le> real_of_int S * (\<bar>?x\<bar> ^ (2 * Suc n) / fact (2 * Suc n))"
    using S by (intro scale_abs cos_taylorH) simp
  have B: "\<bar>real_of_int S * cos ?x - real_of_int c\<bar> \<le> real_of_int r1 + real_of_int r2"
    by (rule abs_via [OF c1 c2 [unfolded hc] rem])
  from A B show ?thesis by (simp add: approxOK_def)
qed

lemma taylorFrac_numeral:
  "taylorFrac (numeral b) c a q =
    (case taylorFrac (pred_numeral b) (c + 2) a q of
       (N, D) \<Rightarrow> (q * q * int ((c + 1) * (c + 2)) * D - a * a * N, q * q * int ((c + 1) * (c + 2)) * D))"
  by (simp add: numeral_eq_Suc)

lemma base40_ok: "approxOK (2 ^ 40) base40 (real_of_int 20943951 / real_of_int 160000000)"
proof -
  obtain Ns Ds where fs: "taylorFrac 4 1 20943951 160000000 = (Ns, Ds)"
    by (cases "taylorFrac 4 1 20943951 160000000")
  obtain Nc Dc where fc: "taylorFrac 4 0 20943951 160000000 = (Nc, Dc)"
    by (cases "taylorFrac 4 0 20943951 160000000")
  have "approxOK (2 ^ 40) (143515065912, 1090105153401, 2 + 1)
    (real_of_int 20943951 / real_of_int 160000000)"
  proof (rule base_ok [OF _ _ fs fc])
    show "\<bar>2 ^ 40 * 20943951 * Ns - 143515065912 * 160000000 * Ds\<bar> \<le> 2 * 160000000 * Ds"
      using fs by (simp add: taylorFrac_numeral)
    show "\<bar>2 ^ 40 * Nc - 1090105153401 * Dc\<bar> \<le> 2 * Dc"
      using fc by (simp add: taylorFrac_numeral)
    show "2 ^ 40 * \<bar>20943951\<bar> ^ (2 * Suc 4) \<le> 1 * fact (2 * Suc 4) * (160000000 :: int) ^ (2 * Suc 4)"
      by (simp add: fact_numeral)
  qed simp_all
  then show ?thesis by (simp add: base40_def)
qed

lemma base64_ok: "approxOK (2 ^ 64) base64 (real_of_int 20943951 / real_of_int 160000000)"
proof -
  obtain Ns Ds where fs: "taylorFrac 6 1 20943951 160000000 = (Ns, Ds)"
    by (cases "taylorFrac 6 1 20943951 160000000")
  obtain Nc Dc where fc: "taylorFrac 6 0 20943951 160000000 = (Nc, Dc)"
    by (cases "taylorFrac 6 0 20943951 160000000")
  have "approxOK (2 ^ 64) (2407783260063548983, 18288929621317268646, 2 + 1)
    (real_of_int 20943951 / real_of_int 160000000)"
  proof (rule base_ok [OF _ _ fs fc])
    show "\<bar>2 ^ 64 * 20943951 * Ns - 2407783260063548983 * 160000000 * Ds\<bar> \<le> 2 * 160000000 * Ds"
      using fs by (simp add: taylorFrac_numeral)
    show "\<bar>2 ^ 64 * Nc - 18288929621317268646 * Dc\<bar> \<le> 2 * Dc"
      using fc by (simp add: taylorFrac_numeral)
    show "2 ^ 64 * \<bar>20943951\<bar> ^ (2 * Suc 6) \<le> 1 * fact (2 * Suc 6) * (160000000 :: int) ^ (2 * Suc 6)"
      by (simp add: fact_numeral)
  qed simp_all
  then show ?thesis by (simp add: base64_def)
qed

section \<open>From an enclosure to the stored sample\<close>

lemma angle_eq: "angleIncrement = real_of_int 20943951 / real_of_int 160000000"
  by (simp add: angleIncrement_def sineFrequency_def samplingRate_def PI_def)

lemma truncToZero_eq:
  assumes "if 0 < t then real_of_int t \<le> v \<and> v < real_of_int t + 1
           else if t < 0 then real_of_int t - 1 < v \<and> v \<le> real_of_int t
           else - 1 < v \<and> v < 1"
  shows "truncToZero v = t"
proof -
  consider "0 < t" | "t < 0" | "t = 0" by linarith
  then show ?thesis
  proof cases
    case 1
    with assms have "real_of_int t \<le> v" "v < real_of_int t + 1" by simp_all
    moreover from this 1 have "0 \<le> v" by linarith
    ultimately show ?thesis by (simp add: truncToZero_def floor_eq_iff)
  next
    case 2
    with assms have "real_of_int t - 1 < v" "v \<le> real_of_int t" by simp_all
    moreover from this 2 have "v < 0" by linarith
    ultimately show ?thesis by (simp add: truncToZero_def ceiling_eq_iff)
  next
    case 3
    with assms have "- 1 < v" "v < 1" by simp_all
    then show ?thesis
      unfolding truncToZero_def 3 by (auto simp add: floor_eq_iff ceiling_eq_iff)
  qed
qed

lemma sample_enclosure:
  assumes S: "0 < S" and ok: "approxOK S (s, c, r) \<theta>"
  shows "1000 * (32767 * 70794578438413791080221494218931) * real_of_int (s - r)
           \<le> 1000 * (32767 * (DAMPENING_FACTOR * sin \<theta>)) * (10 ^ 32 * real_of_int S)"
    and "1000 * (32767 * (DAMPENING_FACTOR * sin \<theta>)) * (10 ^ 32 * real_of_int S)
           \<le> 1000 * (32767 * 70794578438413791080221494218931) * real_of_int (s + r)"
proof -
  from ok have "\<bar>real_of_int S * sin \<theta> - real_of_int s\<bar> \<le> real_of_int r"
    by (simp add: approxOK_def)
  then have "real_of_int (s - r) \<le> real_of_int S * sin \<theta>" and "real_of_int S * sin \<theta> \<le> real_of_int (s + r)"
    by simp_all
  then have "1000 * (32767 * 70794578438413791080221494218931) * real_of_int (s - r)
      \<le> 1000 * (32767 * 70794578438413791080221494218931) * (real_of_int S * sin \<theta>)"
    and "1000 * (32767 * 70794578438413791080221494218931) * (real_of_int S * sin \<theta>)
      \<le> 1000 * (32767 * 70794578438413791080221494218931) * real_of_int (s + r)"
    by (simp_all only: mult_le_cancel_left_pos) 
  then show "1000 * (32767 * 70794578438413791080221494218931) * real_of_int (s - r)
           \<le> 1000 * (32767 * (DAMPENING_FACTOR * sin \<theta>)) * (10 ^ 32 * real_of_int S)"
    and "1000 * (32767 * (DAMPENING_FACTOR * sin \<theta>)) * (10 ^ 32 * real_of_int S)
           \<le> 1000 * (32767 * 70794578438413791080221494218931) * real_of_int (s + r)"
    by (simp_all add: DAMPENING_FACTOR_def)
qed

lemma sample_bounds:
  assumes S: "0 < S" and ok: "approxOK S (s, c, r) \<theta>"
  shows "b * (10 ^ 32 * S) < 1000 * (32767 * 70794578438413791080221494218931) * (s - r)
      \<Longrightarrow> real_of_int b < 1000 * (32767 * (DAMPENING_FACTOR * sin \<theta>))"
    and "b * (10 ^ 32 * S) \<le> 1000 * (32767 * 70794578438413791080221494218931) * (s - r)
      \<Longrightarrow> real_of_int b \<le> 1000 * (32767 * (DAMPENING_FACTOR * sin \<theta>))"
    and "1000 * (32767 * 70794578438413791080221494218931) * (s + r) < b * (10 ^ 32 * S)
      \<Longrightarrow> 1000 * (32767 * (DAMPENING_FACTOR * sin \<theta>)) < real_of_int b"
    and "1000 * (32767 * 70794578438413791080221494218931) * (s + r) \<le> b * (10 ^ 32 * S)
      \<Longrightarrow> 1000 * (32767 * (DAMPENING_FACTOR * sin \<theta>)) \<le> real_of_int b"
proof -
  define w where "w = 32767 * (DAMPENING_FACTOR * sin \<theta>)"
  define K where "K = 10 ^ 32 * real_of_int S"
  define lo where "lo = 1000 * (32767 * 70794578438413791080221494218931) * (s - r)"
  define hi where "hi = 1000 * (32767 * 70794578438413791080221494218931) * (s + r)"
  have K: "0 < K" using S by (simp add: K_def)
  have lo: "real_of_int lo \<le> 1000 * w * K" and hi: "1000 * w * K \<le> real_of_int hi"
    using sample_enclosure [OF S ok] by (simp_all add: w_def K_def lo_def hi_def)
  have bK: "real_of_int (b * (10 ^ 32 * S)) = real_of_int b * K"
    by (simp add: K_def)
  show "real_of_int b < 1000 * (32767 * (DAMPENING_FACTOR * sin \<theta>))"
    if "b * (10 ^ 32 * S) < 1000 * (32767 * 70794578438413791080221494218931) * (s - r)"
  proof -
    from that have "real_of_int (b * (10 ^ 32 * S)) < real_of_int lo"
      unfolding lo_def by (simp only: of_int_less_iff)
    then have "real_of_int b * K < 1000 * w * K" using lo unfolding bK by linarith
    then show ?thesis using K unfolding w_def by (simp only: mult_less_cancel_right_pos)
  qed
  show "real_of_int b \<le> 1000 * (32767 * (DAMPENING_FACTOR * sin \<theta>))"
    if "b * (10 ^ 32 * S) \<le> 1000 * (32767 * 70794578438413791080221494218931) * (s - r)"
  proof -
    from that have "real_of_int (b * (10 ^ 32 * S)) \<le> real_of_int lo"
      unfolding lo_def by (simp only: of_int_le_iff)
    then have "real_of_int b * K \<le> 1000 * w * K" using lo unfolding bK by linarith
    then show ?thesis using K unfolding w_def by (simp only: mult_le_cancel_right_pos)
  qed
  show "1000 * (32767 * (DAMPENING_FACTOR * sin \<theta>)) < real_of_int b"
    if "1000 * (32767 * 70794578438413791080221494218931) * (s + r) < b * (10 ^ 32 * S)"
  proof -
    from that have "real_of_int hi < real_of_int (b * (10 ^ 32 * S))"
      unfolding hi_def by (simp only: of_int_less_iff)
    then have "1000 * w * K < real_of_int b * K" using hi unfolding bK by linarith
    then show ?thesis using K unfolding w_def by (simp only: mult_less_cancel_right_pos)
  qed
  show "1000 * (32767 * (DAMPENING_FACTOR * sin \<theta>)) \<le> real_of_int b"
    if "1000 * (32767 * 70794578438413791080221494218931) * (s + r) \<le> b * (10 ^ 32 * S)"
  proof -
    from that have "real_of_int hi \<le> real_of_int (b * (10 ^ 32 * S))"
      unfolding hi_def by (simp only: of_int_le_iff)
    then have "1000 * w * K \<le> real_of_int b * K" using hi unfolding bK by linarith
    then show ?thesis using K unfolding w_def by (simp only: mult_le_cancel_right_pos)
  qed
qed

lemma sampleCheck_sound:
  assumes S: "0 < S" and ok: "approxOK S tr \<theta>" and chk: "sampleCheck S tr t"
    and e: "\<bar>e\<bar> \<le> 1 / 1000"
  shows "truncToZero (32767 * (DAMPENING_FACTOR * sin \<theta>) + e) = t"
proof -
  obtain s c r where tr: "tr = (s, c, r)" by (cases tr)
  define w where "w = 32767 * (DAMPENING_FACTOR * sin \<theta>)"
  note bnd = sample_bounds [OF S ok [unfolded tr], folded w_def]
  have c: "if 0 < t then (1000 * t + 1) * (10 ^ 32 * S) \<le> 1000 * (32767 * 70794578438413791080221494218931) * (s - r)
        \<and> 1000 * (32767 * 70794578438413791080221494218931) * (s + r) < (1000 * t + 999) * (10 ^ 32 * S)
      else if t < 0 then (1000 * t - 999) * (10 ^ 32 * S) < 1000 * (32767 * 70794578438413791080221494218931) * (s - r)
        \<and> 1000 * (32767 * 70794578438413791080221494218931) * (s + r) \<le> (1000 * t - 1) * (10 ^ 32 * S)
      else - 999 * (10 ^ 32 * S) < 1000 * (32767 * 70794578438413791080221494218931) * (s - r)
        \<and> 1000 * (32767 * 70794578438413791080221494218931) * (s + r) < 999 * (10 ^ 32 * S)"
    using chk unfolding sampleCheck_def tr prod.case Let_def .
  consider "0 < t" | "t < 0" | "t = 0" by linarith
  then have "if 0 < t then real_of_int t \<le> w + e \<and> w + e < real_of_int t + 1
           else if t < 0 then real_of_int t - 1 < w + e \<and> w + e \<le> real_of_int t
           else - 1 < w + e \<and> w + e < 1"
  proof cases
    case 1
    from c [unfolded if_P [OF 1]] have "real_of_int (1000 * t + 1) \<le> 1000 * w"
      and "1000 * w < real_of_int (1000 * t + 999)"
      by (blast intro: bnd)+
    with e 1 show ?thesis by (simp; linarith)
  next
    case 2
    then have n0: "\<not> 0 < t" by simp
    from c [unfolded if_not_P [OF n0] if_P [OF 2]] have "real_of_int (1000 * t - 999) < 1000 * w"
      and "1000 * w \<le> real_of_int (1000 * t - 1)"
      by (blast intro: bnd)+
    with e 2 show ?thesis by (simp; linarith)
  next
    case 3
    then have n0: "\<not> 0 < t" and n1: "\<not> t < 0" by simp_all
    from c [unfolded if_not_P [OF n0] if_not_P [OF n1]] have "real_of_int (- 999) < 1000 * w"
      and "1000 * w < real_of_int 999"
      by (blast intro: bnd)+
    with e 3 show ?thesis by (simp; linarith)
  qed
  then show ?thesis unfolding w_def [symmetric] by (rule truncToZero_eq)
qed

lemma sampleAt:
  assumes "0 < S" and "approxOK S b angleIncrement"
    and "sampleCheck S (trigApprox S b n) t" and "\<bar>err (numeral n)\<bar> \<le> 1 / 1000"
  shows "truncToZero (scaledSample err (numeral n)) = t"
proof -
  have "approxOK S (trigApprox S b n) (numeral n * angleIncrement)"
    by (rule trigApprox_ok [OF assms(1,2)])
  from sampleCheck_sound [OF assms(1) this assms(3) assms(4)] show ?thesis
    by (simp add: scaledSample_def)
qed

lemmas sampleAt40 = sampleAt [where S = "2 ^ 40" and b = base40, OF _ base40_ok [folded angle_eq]]

lemmas sampleAt64 = sampleAt [where S = "2 ^ 64" and b = base64, OF _ base64_ok [folded angle_eq]]

section \<open>The samples of the first period\<close>

lemma sample_47970: "\<bar>err 47970\<bar> \<le> 1 / 1000 \<Longrightarrow> truncToZero (scaledSample err 47970) = 16403"
  by (rule sampleAt64) (simp_all add: sampleCheck_def base64_def trigAdd_def trigDouble_def Let_def)

lemma sample_2: "\<bar>err 2\<bar> \<le> 1 / 1000 \<Longrightarrow> truncToZero (scaledSample err 2) = 6003"
  by (rule sampleAt40) (simp_all add: sampleCheck_def base40_def trigAdd_def trigDouble_def Let_def)

lemma sample_3: "\<bar>err 3\<bar> \<le> 1 / 1000 \<Longrightarrow> truncToZero (scaledSample err 3) = 8877"
  by (rule sampleAt40) (simp_all add: sampleCheck_def base40_def trigAdd_def trigDouble_def Let_def)

lemma sample_4: "\<bar>err 4\<bar> \<le> 1 / 1000 \<Longrightarrow> truncToZero (scaledSample err 4) = 11598"
  by (rule sampleAt40) (simp_all add: sampleCheck_def base40_def trigAdd_def trigDouble_def Let_def)

lemma sample_5: "\<bar>err 5\<bar> \<le> 1 / 1000 \<Longrightarrow> truncToZero (scaledSample err 5) = 14121"
  by (rule sampleAt40) (simp_all add: sampleCheck_def base40_def trigAdd_def trigDouble_def Let_def)

lemma sample_6: "\<bar>err 6\<bar> \<le> 1 / 1000 \<Longrightarrow> truncToZero (scaledSample err 6) = 16402"
  by (rule sampleAt40) (simp_all add: sampleCheck_def base40_def trigAdd_def trigDouble_def Let_def)

lemma sample_7: "\<bar>err 7\<bar> \<le> 1 / 1000 \<Longrightarrow> truncToZero (scaledSample err 7) = 18403"
  by (rule sampleAt40) (simp_all add: sampleCheck_def base40_def trigAdd_def trigDouble_def Let_def)

lemma sample_8: "\<bar>err 8\<bar> \<le> 1 / 1000 \<Longrightarrow> truncToZero (scaledSample err 8) = 20089"
  by (rule sampleAt40) (simp_all add: sampleCheck_def base40_def trigAdd_def trigDouble_def Let_def)

lemma sample_9: "\<bar>err 9\<bar> \<le> 1 / 1000 \<Longrightarrow> truncToZero (scaledSample err 9) = 21431"
  by (rule sampleAt40) (simp_all add: sampleCheck_def base40_def trigAdd_def trigDouble_def Let_def)

lemma sample_10: "\<bar>err 10\<bar> \<le> 1 / 1000 \<Longrightarrow> truncToZero (scaledSample err 10) = 22406"
  by (rule sampleAt40) (simp_all add: sampleCheck_def base40_def trigAdd_def trigDouble_def Let_def)

lemma sample_11: "\<bar>err 11\<bar> \<le> 1 / 1000 \<Longrightarrow> truncToZero (scaledSample err 11) = 22998"
  by (rule sampleAt40) (simp_all add: sampleCheck_def base40_def trigAdd_def trigDouble_def Let_def)

lemma sample_12: "\<bar>err 12\<bar> \<le> 1 / 1000 \<Longrightarrow> truncToZero (scaledSample err 12) = 23197"
  by (rule sampleAt40) (simp_all add: sampleCheck_def base40_def trigAdd_def trigDouble_def Let_def)

lemma sample_13: "\<bar>err 13\<bar> \<le> 1 / 1000 \<Longrightarrow> truncToZero (scaledSample err 13) = 22998"
  by (rule sampleAt40) (simp_all add: sampleCheck_def base40_def trigAdd_def trigDouble_def Let_def)

lemma sample_14: "\<bar>err 14\<bar> \<le> 1 / 1000 \<Longrightarrow> truncToZero (scaledSample err 14) = 22406"
  by (rule sampleAt40) (simp_all add: sampleCheck_def base40_def trigAdd_def trigDouble_def Let_def)

lemma sample_15: "\<bar>err 15\<bar> \<le> 1 / 1000 \<Longrightarrow> truncToZero (scaledSample err 15) = 21431"
  by (rule sampleAt40) (simp_all add: sampleCheck_def base40_def trigAdd_def trigDouble_def Let_def)

lemma sample_16: "\<bar>err 16\<bar> \<le> 1 / 1000 \<Longrightarrow> truncToZero (scaledSample err 16) = 20089"
  by (rule sampleAt40) (simp_all add: sampleCheck_def base40_def trigAdd_def trigDouble_def Let_def)

lemma sample_17: "\<bar>err 17\<bar> \<le> 1 / 1000 \<Longrightarrow> truncToZero (scaledSample err 17) = 18403"
  by (rule sampleAt40) (simp_all add: sampleCheck_def base40_def trigAdd_def trigDouble_def Let_def)

lemma sample_18: "\<bar>err 18\<bar> \<le> 1 / 1000 \<Longrightarrow> truncToZero (scaledSample err 18) = 16402"
  by (rule sampleAt40) (simp_all add: sampleCheck_def base40_def trigAdd_def trigDouble_def Let_def)

lemma sample_19: "\<bar>err 19\<bar> \<le> 1 / 1000 \<Longrightarrow> truncToZero (scaledSample err 19) = 14121"
  by (rule sampleAt40) (simp_all add: sampleCheck_def base40_def trigAdd_def trigDouble_def Let_def)

lemma sample_20: "\<bar>err 20\<bar> \<le> 1 / 1000 \<Longrightarrow> truncToZero (scaledSample err 20) = 11598"
  by (rule sampleAt40) (simp_all add: sampleCheck_def base40_def trigAdd_def trigDouble_def Let_def)

lemma sample_21: "\<bar>err 21\<bar> \<le> 1 / 1000 \<Longrightarrow> truncToZero (scaledSample err 21) = 8877"
  by (rule sampleAt40) (simp_all add: sampleCheck_def base40_def trigAdd_def trigDouble_def Let_def)

lemma sample_22: "\<bar>err 22\<bar> \<le> 1 / 1000 \<Longrightarrow> truncToZero (scaledSample err 22) = 6003"
  by (rule sampleAt40) (simp_all add: sampleCheck_def base40_def trigAdd_def trigDouble_def Let_def)

lemma sample_23: "\<bar>err 23\<bar> \<le> 1 / 1000 \<Longrightarrow> truncToZero (scaledSample err 23) = 3027"
  by (rule sampleAt40) (simp_all add: sampleCheck_def base40_def trigAdd_def trigDouble_def Let_def)

lemma sample_24: "\<bar>err 24\<bar> \<le> 1 / 1000 \<Longrightarrow> truncToZero (scaledSample err 24) = 0"
  by (rule sampleAt40) (simp_all add: sampleCheck_def base40_def trigAdd_def trigDouble_def Let_def)

lemma sample_25: "\<bar>err 25\<bar> \<le> 1 / 1000 \<Longrightarrow> truncToZero (scaledSample err 25) = - 3027"
  by (rule sampleAt40) (simp_all add: sampleCheck_def base40_def trigAdd_def trigDouble_def Let_def)

lemma sample_26: "\<bar>err 26\<bar> \<le> 1 / 1000 \<Longrightarrow> truncToZero (scaledSample err 26) = - 6003"
  by (rule sampleAt40) (simp_all add: sampleCheck_def base40_def trigAdd_def trigDouble_def Let_def)

lemma sample_27: "\<bar>err 27\<bar> \<le> 1 / 1000 \<Longrightarrow> truncToZero (scaledSample err 27) = - 8877"
  by (rule sampleAt40) (simp_all add: sampleCheck_def base40_def trigAdd_def trigDouble_def Let_def)

lemma sample_28: "\<bar>err 28\<bar> \<le> 1 / 1000 \<Longrightarrow> truncToZero (scaledSample err 28) = - 11598"
  by (rule sampleAt40) (simp_all add: sampleCheck_def base40_def trigAdd_def trigDouble_def Let_def)

lemma sample_29: "\<bar>err 29\<bar> \<le> 1 / 1000 \<Longrightarrow> truncToZero (scaledSample err 29) = - 14121"
  by (rule sampleAt40) (simp_all add: sampleCheck_def base40_def trigAdd_def trigDouble_def Let_def)

lemma sample_30: "\<bar>err 30\<bar> \<le> 1 / 1000 \<Longrightarrow> truncToZero (scaledSample err 30) = - 16402"
  by (rule sampleAt40) (simp_all add: sampleCheck_def base40_def trigAdd_def trigDouble_def Let_def)

lemma sample_31: "\<bar>err 31\<bar> \<le> 1 / 1000 \<Longrightarrow> truncToZero (scaledSample err 31) = - 18403"
  by (rule sampleAt40) (simp_all add: sampleCheck_def base40_def trigAdd_def trigDouble_def Let_def)

lemma sample_32: "\<bar>err 32\<bar> \<le> 1 / 1000 \<Longrightarrow> truncToZero (scaledSample err 32) = - 20089"
  by (rule sampleAt40) (simp_all add: sampleCheck_def base40_def trigAdd_def trigDouble_def Let_def)

lemma sample_33: "\<bar>err 33\<bar> \<le> 1 / 1000 \<Longrightarrow> truncToZero (scaledSample err 33) = - 21431"
  by (rule sampleAt40) (simp_all add: sampleCheck_def base40_def trigAdd_def trigDouble_def Let_def)

lemma sample_34: "\<bar>err 34\<bar> \<le> 1 / 1000 \<Longrightarrow> truncToZero (scaledSample err 34) = - 22406"
  by (rule sampleAt40) (simp_all add: sampleCheck_def base40_def trigAdd_def trigDouble_def Let_def)

lemma sample_35: "\<bar>err 35\<bar> \<le> 1 / 1000 \<Longrightarrow> truncToZero (scaledSample err 35) = - 22998"
  by (rule sampleAt40) (simp_all add: sampleCheck_def base40_def trigAdd_def trigDouble_def Let_def)

lemma sample_36: "\<bar>err 36\<bar> \<le> 1 / 1000 \<Longrightarrow> truncToZero (scaledSample err 36) = - 23197"
  by (rule sampleAt40) (simp_all add: sampleCheck_def base40_def trigAdd_def trigDouble_def Let_def)

lemma sample_37: "\<bar>err 37\<bar> \<le> 1 / 1000 \<Longrightarrow> truncToZero (scaledSample err 37) = - 22998"
  by (rule sampleAt40) (simp_all add: sampleCheck_def base40_def trigAdd_def trigDouble_def Let_def)

lemma sample_38: "\<bar>err 38\<bar> \<le> 1 / 1000 \<Longrightarrow> truncToZero (scaledSample err 38) = - 22406"
  by (rule sampleAt40) (simp_all add: sampleCheck_def base40_def trigAdd_def trigDouble_def Let_def)

lemma sample_39: "\<bar>err 39\<bar> \<le> 1 / 1000 \<Longrightarrow> truncToZero (scaledSample err 39) = - 21431"
  by (rule sampleAt40) (simp_all add: sampleCheck_def base40_def trigAdd_def trigDouble_def Let_def)

lemma sample_40: "\<bar>err 40\<bar> \<le> 1 / 1000 \<Longrightarrow> truncToZero (scaledSample err 40) = - 20089"
  by (rule sampleAt40) (simp_all add: sampleCheck_def base40_def trigAdd_def trigDouble_def Let_def)

lemma sample_41: "\<bar>err 41\<bar> \<le> 1 / 1000 \<Longrightarrow> truncToZero (scaledSample err 41) = - 18403"
  by (rule sampleAt40) (simp_all add: sampleCheck_def base40_def trigAdd_def trigDouble_def Let_def)

lemma sample_42: "\<bar>err 42\<bar> \<le> 1 / 1000 \<Longrightarrow> truncToZero (scaledSample err 42) = - 16402"
  by (rule sampleAt40) (simp_all add: sampleCheck_def base40_def trigAdd_def trigDouble_def Let_def)

lemma sample_43: "\<bar>err 43\<bar> \<le> 1 / 1000 \<Longrightarrow> truncToZero (scaledSample err 43) = - 14121"
  by (rule sampleAt40) (simp_all add: sampleCheck_def base40_def trigAdd_def trigDouble_def Let_def)

lemma sample_44: "\<bar>err 44\<bar> \<le> 1 / 1000 \<Longrightarrow> truncToZero (scaledSample err 44) = - 11598"
  by (rule sampleAt40) (simp_all add: sampleCheck_def base40_def trigAdd_def trigDouble_def Let_def)

lemma sample_45: "\<bar>err 45\<bar> \<le> 1 / 1000 \<Longrightarrow> truncToZero (scaledSample err 45) = - 8877"
  by (rule sampleAt40) (simp_all add: sampleCheck_def base40_def trigAdd_def trigDouble_def Let_def)

lemma sample_46: "\<bar>err 46\<bar> \<le> 1 / 1000 \<Longrightarrow> truncToZero (scaledSample err 46) = - 6003"
  by (rule sampleAt40) (simp_all add: sampleCheck_def base40_def trigAdd_def trigDouble_def Let_def)

lemma sample_47: "\<bar>err 47\<bar> \<le> 1 / 1000 \<Longrightarrow> truncToZero (scaledSample err 47) = - 3027"
  by (rule sampleAt40) (simp_all add: sampleCheck_def base40_def trigAdd_def trigDouble_def Let_def)

section \<open>The generation loop\<close>

lemma sineLoop_inv:
  assumes cast: "\<And>i. i < 48000 \<Longrightarrow> static_cast_int16 (scaledSample err i) = Some (t i)"
    and "n = 48000 - iii" and "iii \<le> 48000" and "length lut = 48" and "length buf = 96000"
  shows "\<exists>lut' buf'. sineLoop err (2 * iii) iii (lut, buf) = Some (lut', buf')
    \<and> length lut' = 48 \<and> length buf' = 96000
    \<and> (\<forall>k<48. lut' ! k = (if iii \<le> k then t k else lut ! k))
    \<and> (\<forall>p<96000. buf' ! p = (if 2 * iii \<le> p then t (p div 2) else buf ! p))"
  using assms(2-)
proof (induction n arbitrary: iii lut buf)
  case 0
  then have "iii = 48000" by simp
  then show ?case
    using 0 by (subst sineLoop.simps) (simp add: samplingRate_def)
next
  case (Suc n)
  then have lt: "iii < 48000" by simp
  define lut1 where "lut1 = (if iii < 48 then lut[iii := t iii] else lut)"
  define buf2 where "buf2 = buf[2 * iii := t iii, 2 * iii + 1 := t iii]"
  have step: "sineLoop err (2 * iii) iii (lut, buf) = sineLoop err (2 * Suc iii) (Suc iii) (lut1, buf2)"
    using lt Suc.prems
    by (subst sineLoop.simps) (simp add: samplingRate_def cast storeAt_def lut1_def buf2_def)
  have "n = 48000 - Suc iii" "Suc iii \<le> 48000" "length lut1 = 48" "length buf2 = 96000"
    using Suc.prems lt by (simp_all add: lut1_def buf2_def)
  from Suc.IH [OF this] obtain lut' buf' where
    r: "sineLoop err (2 * Suc iii) (Suc iii) (lut1, buf2) = Some (lut', buf')"
    and l: "length lut' = 48" "length buf' = 96000"
    and a: "\<forall>k<48. lut' ! k = (if Suc iii \<le> k then t k else lut1 ! k)"
    and b: "\<forall>p<96000. buf' ! p = (if 2 * Suc iii \<le> p then t (p div 2) else buf2 ! p)"
    by blast
  have a': "\<forall>k<48. lut' ! k = (if iii \<le> k then t k else lut ! k)"
  proof (intro allI impI)
    fix k :: nat assume k: "k < 48"
    show "lut' ! k = (if iii \<le> k then t k else lut ! k)"
      using a k Suc.prems(3) by (cases "k = iii") (auto simp add: lut1_def)
  qed
  have b': "\<forall>p<96000. buf' ! p = (if 2 * iii \<le> p then t (p div 2) else buf ! p)"
  proof (intro allI impI)
    fix p :: nat assume p: "p < 96000"
    have "p = 2 * iii \<or> p = 2 * iii + 1 \<or> p < 2 * iii \<or> 2 * Suc iii \<le> p" by arith
    then consider "p = 2 * iii" | "p = 2 * iii + 1" | "p < 2 * iii" | "2 * Suc iii \<le> p" by blast
    then show "buf' ! p = (if 2 * iii \<le> p then t (p div 2) else buf ! p)"
    proof cases
      case 1
      then show ?thesis using b p Suc.prems(4) by (simp add: buf2_def)
    next
      case 2
      then show ?thesis using b p Suc.prems(4) by (simp add: buf2_def)
    next
      case 3
      then show ?thesis using b p Suc.prems(4) by (simp add: buf2_def)
    next
      case 4
      then show ?thesis using b p by simp
    qed
  qed
  show ?case unfolding step r using l a' b' by simp
qed

lemma sample_0: "\<bar>err 0\<bar> \<le> 1 / 1000 \<Longrightarrow> truncToZero (scaledSample err 0) = 0"
  by (rule truncToZero_eq) (simp add: scaledSample_def, linarith)

lemma sample_1: "\<bar>err 1\<bar> \<le> 1 / 1000 \<Longrightarrow> truncToZero (scaledSample err 1) = 3027"
  using sampleAt40 [of num.One 3027 err]
  by (simp add: sampleCheck_def base40_def)

lemma abs_truncToZero: "\<bar>real_of_int (truncToZero v)\<bar> \<le> \<bar>v\<bar>"
  unfolding truncToZero_def by (simp; linarith)

lemma DAMPENING_FACTOR_bounds: "0 < DAMPENING_FACTOR" "DAMPENING_FACTOR < 1"
  by (simp_all add: DAMPENING_FACTOR_def)

lemma scaled_abs:
  fixes d x :: real
  assumes "0 \<le> d" and "d \<le> 1"
  shows "\<bar>32767 * (d * sin x)\<bar> \<le> 32767"
proof -
  have "\<bar>d\<bar> \<le> 1" using assms by simp
  moreover have "\<bar>sin x\<bar> \<le> 1" by simp
  ultimately have "\<bar>d\<bar> * \<bar>sin x\<bar> \<le> 1"
    by (simp add: mult_le_one)
  then show ?thesis by (simp add: abs_mult)
qed

lemma static_cast_in_range:
  assumes "\<bar>v\<bar> \<le> 32767 + 1 / 1000"
  shows "static_cast_int16 v = Some (word_of_int (truncToZero v))"
    and "sint (word_of_int (truncToZero v) :: int16_t) = truncToZero v"
proof -
  have "\<bar>real_of_int (truncToZero v)\<bar> \<le> 32767 + 1 / 1000"
    using abs_truncToZero [of v] assms by linarith
  then have r: "- 32768 \<le> truncToZero v" "truncToZero v \<le> 32767"
    by linarith+
  then show "static_cast_int16 v = Some (word_of_int (truncToZero v))"
    by (simp add: static_cast_int16_def)
  from r show "sint (word_of_int (truncToZero v) :: int16_t) = truncToZero v"
    by (simp add: sint_sbintrunc' signed_take_bit_int_eq_self)
qed

lemma scaledSample_abs: "\<bar>err i\<bar> \<le> 1 / 1000 \<Longrightarrow> \<bar>scaledSample err i\<bar> \<le> 32767 + 1 / 1000"
  using scaled_abs [of DAMPENING_FACTOR "real i * angleIncrement"] DAMPENING_FACTOR_bounds
  unfolding scaledSample_def by linarith


lemma cast_scaledSample:
  assumes "\<bar>err i\<bar> \<le> 1 / 1000"
  shows "static_cast_int16 (scaledSample err i) = Some (word_of_int (truncToZero (scaledSample err i)))"
  by (rule static_cast_in_range) (rule scaledSample_abs [of err i, OF assms])

lemma main_generate_ok:
  assumes "\<forall>i. \<bar>err i\<bar> \<le> 1 / 1000"
  shows "\<exists>lut buf. main_generate err = Some (lut, buf)
    \<and> length lut = 48 \<and> length buf = 96000
    \<and> (\<forall>k<48. lut ! k = word_of_int (truncToZero (scaledSample err k)))
    \<and> (\<forall>p<96000. buf ! p = word_of_int (truncToZero (scaledSample err (p div 2))))"
proof -
  have c: "static_cast_int16 (scaledSample err i) = Some (word_of_int (truncToZero (scaledSample err i)))"
    for i
    using assms by (intro cast_scaledSample) blast
  have "\<exists>lut' buf'. sineLoop err (2 * 0) 0 (replicate 48 0, replicate BUFFER_SIZE 0) = Some (lut', buf')
    \<and> length lut' = 48 \<and> length buf' = 96000
    \<and> (\<forall>k<48. lut' ! k = (if 0 \<le> k then word_of_int (truncToZero (scaledSample err k)) else replicate 48 0 ! k))
    \<and> (\<forall>p<96000. buf' ! p = (if 2 * 0 \<le> p then word_of_int (truncToZero (scaledSample err (p div 2)))
          else replicate BUFFER_SIZE 0 ! p))"
    by (rule sineLoop_inv [where n = 48000
          and t = "\<lambda>i. word_of_int (truncToZero (scaledSample err i))"])
      (simp_all add: c BUFFER_SIZE_def)
  then show ?thesis by (simp add: main_generate_def)
qed

lemma allBelow_iff: "allBelow n P = (\<forall>k<n. P k)"
  by (induction n) (auto simp add: less_Suc_eq)

lemma allBelow_numeral:
  "allBelow (numeral n) P = (P (pred_numeral n) \<and> allBelow (pred_numeral n) P)"
  by (simp add: numeral_eq_Suc)

lemmas table_entries = sample_0 sample_1 sample_2 sample_3 sample_4 sample_5 sample_6 sample_7 sample_8 sample_9 sample_10 sample_11 sample_12 sample_13
  sample_14 sample_15 sample_16 sample_17 sample_18 sample_19 sample_20 sample_21 sample_22 sample_23 sample_24 sample_25 sample_26 sample_27 sample_28 sample_29
  sample_30 sample_31 sample_32 sample_33 sample_34 sample_35 sample_36 sample_37 sample_38 sample_39 sample_40 sample_41 sample_42 sample_43 sample_44 sample_45
  sample_46 sample_47

lemma computed_table:
  assumes "\<forall>i. \<bar>err i\<bar> \<le> 1 / 1000"
  shows "\<forall>k<48. word_of_int (truncToZero (scaledSample err k)) = monoSine1kHzLoopUp ! k"
proof -
  have e: "\<bar>err k\<bar> \<le> 1 / 1000" for k
    using assms by blast
  note t = table_entries [OF e]
  show ?thesis
    unfolding allBelow_iff [symmetric] monoSine1kHzLoopUp_def
    by (simp add: allBelow_numeral t t(2) [unfolded One_nat_def])
qed

section \<open>Properties of the replication\<close>

lemma pushChannels_eq: "pushChannels n s buf = buf @ replicate n s"
  by (induction n arbitrary: buf) (simp_all add: replicate_app_Cons_same)

lemma forEachSample_eq: "forEachSample c ss buf = buf @ concat (map (replicate c) ss)"
  by (induction ss arbitrary: buf) (simp_all add: pushChannels_eq)

lemma fillLoop_eq: "fillLoop n c ss buf = buf @ concat (replicate n (concat (map (replicate c) ss)))"
  by (induction n arbitrary: buf) (simp_all add: forEachSample_eq)

lemma length_interleave: "length (concat (map (replicate c) ss)) = length ss * c"
  by (induction ss) simp_all

lemma nth_interleave: "q < length ss * c \<Longrightarrow> concat (map (replicate c) ss) ! q = ss ! (q div c)"
proof (induction ss arbitrary: q)
  case Nil
  then show ?case by simp
next
  case (Cons s ss)
  show ?case
  proof (cases "q < c")
    case True
    then show ?thesis by (simp add: nth_append)
  next
    case False
    moreover from False Cons.prems have "0 < c" by (cases c) simp_all
    ultimately have "q div c = Suc ((q - c) div c)" by (simp add: le_div_geq)
    moreover have "q - c < length ss * c" using False Cons.prems by simp
    ultimately show ?thesis using False Cons.IH [of "q - c"] by (simp add: nth_append)
  qed
qed

lemma length_repeat: "length (concat (replicate n xs)) = n * length xs"
  by (induction n) simp_all

lemma nth_repeat: "q < n * length xs \<Longrightarrow> concat (replicate n xs) ! q = xs ! (q mod length xs)"
proof (induction n arbitrary: q)
  case 0
  then show ?case by simp
next
  case (Suc n)
  show ?case
  proof (cases "q < length xs")
    case True
    then show ?thesis by (simp add: nth_append)
  next
    case False
    then show ?thesis using Suc by (simp add: nth_append le_mod_geq)
  qed
qed

lemma fillLoop_length: "length (fillLoop n c ss []) = n * (length ss * c)"
  by (simp add: fillLoop_eq length_repeat length_interleave)

lemma fillLoop_periodic:
  assumes "q < length (fillLoop n c ss [])"
  shows "fillLoop n c ss [] ! q = fillLoop n c ss [] ! (q mod (length ss * c))"
proof -
  let ?P = "concat (map (replicate c) ss)"
  have q: "q < n * length ?P" using assms by (simp add: fillLoop_eq length_repeat)
  then have pos: "0 < length ?P" by (cases "length ?P") simp_all
  then have m: "q mod length ?P < length ?P" by simp
  moreover have "length ?P \<le> n * length ?P" using q by (cases n) simp_all
  ultimately have m': "q mod length ?P < n * length ?P" by linarith
  have "fillLoop n c ss [] ! q = ?P ! (q mod length ?P)"
    using q by (simp add: fillLoop_eq nth_repeat)
  also have "\<dots> = fillLoop n c ss [] ! (q mod length ?P)"
    using m' by (simp add: fillLoop_eq nth_repeat)
  finally show ?thesis by (simp add: length_interleave)
qed

lemma fillLoop_slots:
  assumes "j < n" and "i < length ss" and "k < c"
  shows "fillLoop n c ss [] ! ((j * length ss + i) * c + k) = ss ! i"
proof -
  let ?P = "concat (map (replicate c) ss)"
  have lp: "length ?P = length ss * c" by (rule length_interleave)
  have ik: "i * c + k < length ss * c"
  proof -
    have "i * c + k < i * c + c" using assms(3) by simp
    also have "\<dots> = Suc i * c" by simp
    also have "\<dots> \<le> length ss * c" using assms(2) by (intro mult_le_mono1) simp
    finally show ?thesis .
  qed
  have e: "(j * length ss + i) * c + k = j * (length ss * c) + (i * c + k)"
    by (simp add: algebra_simps)
  have "j * (length ss * c) + (i * c + k) < j * (length ss * c) + length ss * c"
    using ik by simp
  also have "\<dots> = Suc j * (length ss * c)" by simp
  also have "\<dots> \<le> n * (length ss * c)" using assms(1) by (intro mult_le_mono1) simp
  finally have q: "(j * length ss + i) * c + k < n * length ?P" by (simp add: e lp)
  have "fillLoop n c ss [] ! ((j * length ss + i) * c + k) = ?P ! (((j * length ss + i) * c + k) mod length ?P)"
    using q by (simp add: fillLoop_eq nth_repeat)
  also have "((j * length ss + i) * c + k) mod length ?P = i * c + k"
    unfolding e lp using ik by simp
  also have "?P ! (i * c + k) = ss ! ((i * c + k) div c)"
    using ik by (rule nth_interleave)
  also have "(i * c + k) div c = i"
    using assms(3) by simp
  finally show ?thesis .
qed

section \<open>Properties of the synthesized waveform\<close>

text \<open>
  C10. Whatever the rounding errors of the floating-point computation, as long as each
  stays within one thousandth, the lookup table that the computing generator fills in its
  first 48 turns is the table written into the optimized generator.
\<close>

theorem lookup_table_agrees:
  assumes "\<forall>i. \<bar>err i\<bar> \<le> 1 / 1000"
  shows "\<exists>buffer. main_generate err = Some (monoSine1kHzLoopUp, buffer)"
proof -
  from main_generate_ok [OF assms] obtain lut buf where
    g: "main_generate err = Some (lut, buf)" and l: "length lut = 48"
    and v: "\<forall>k<48. lut ! k = word_of_int (truncToZero (scaledSample err k))"
    by blast
  have "length monoSine1kHzLoopUp = 48"
    by (simp add: monoSine1kHzLoopUp_def)
  with l v computed_table [OF assms] have "lut = monoSine1kHzLoopUp"
    by (intro nth_equalityI) simp_all
  with g show ?thesis by blast
qed

theorem lookup_table_agrees_witness:
  "(\<forall>i. \<bar>exactArithmetic i\<bar> \<le> 1 / 1000)
   \<and> (\<exists>buffer. main_generate exactArithmetic = Some (monoSine1kHzLoopUp, buffer))"
  using lookup_table_agrees [of exactArithmetic] by (simp add: exactArithmetic_def)







lemma drift_samples:
  assumes "\<forall>i. \<bar>err i\<bar> \<le> 1 / 1000" and "main_generate err = Some (lut, buf)"
  shows "buf ! 95940 = 16403" and "buf ! 36 = 16402"
proof -
  have e: "\<bar>err k\<bar> \<le> 1 / 1000" for k
    using assms(1) by blast
  from main_generate_ok [OF assms(1)] assms(2)
  have v: "\<forall>p<96000. buf ! p = word_of_int (truncToZero (scaledSample err (p div 2)))"
    by auto
  have "buf ! 95940 = word_of_int (truncToZero (scaledSample err 47970))"
    using v by simp
  then show "buf ! 95940 = 16403"
    by (simp only: sample_47970 [OF e]) simp
  have "buf ! 36 = word_of_int (truncToZero (scaledSample err 18))"
    using v by simp
  then show "buf ! 36 = 16402"
    by (simp only: sample_18 [OF e]) simp
qed

text \<open>
  C5, as stated, fails on the ring of the computing generator. Its 48000 samples are each
  computed from the index, with \<open>PI = 3.14159265\<close>; over one second the phase falls behind
  by about seven millionths of a radian, enough to move a sample across an integer.
  Sample 47970 is 16403 and sample 18, one thousand periods earlier, is 16402: positions
  95940 and 95940 mod 96 = 36 of the ring differ.
\<close>

theorem computed_ring_not_periodic:
  "main_generate exactArithmetic \<noteq> None
   \<and> snd (the (main_generate exactArithmetic)) ! 95940
       \<noteq> snd (the (main_generate exactArithmetic)) ! (95940 mod (48 * 2))"
proof -
  have h: "\<forall>i. \<bar>exactArithmetic i\<bar> \<le> 1 / 1000"
    by (simp add: exactArithmetic_def)
  from main_generate_ok [OF h] obtain lut buf where g: "main_generate exactArithmetic = Some (lut, buf)"
    by blast
  from drift_samples [OF h g] have "buf ! 95940 \<noteq> buf ! (95940 mod (48 * 2))"
    by simp
  with g show ?thesis by simp
qed

text \<open>
  C5, amended. \<open>fillBuffer\<close>, started on an empty buffer with a period of
  \<open>SAMPLES_PER_SINE\<close> samples that divides the frame size (the static assertion of the
  program), returns exactly \<open>PROC_FRAME_SIZE * AUD_CHANNELS\<close> samples; for every channel
  count each source sample fills that many consecutive slots with its value; and the
  result at any position equals the result at that position modulo the period length
  times the channel count. The computing generator fills all \<open>BUFFER_SIZE\<close> slots and puts
  each computed sample into two consecutive slots; exact periodicity is not part of what
  it guarantees.
\<close>

theorem replication_exact_and_periodic:
  assumes "length monoSigBuff = SAMPLES_PER_SINE p"
    and "PROC_FRAME_SIZE p mod SAMPLES_PER_SINE p = 0"
    and "\<forall>i. \<bar>err i\<bar> \<le> 1 / 1000"
  shows "length (fillBuffer p monoSigBuff []) = PROC_FRAME_SIZE p * AUD_CHANNELS p
    \<and> (\<forall>j<SINES_IN_FRAME p. \<forall>i<length monoSigBuff. \<forall>c<AUD_CHANNELS p.
          fillBuffer p monoSigBuff [] ! ((j * length monoSigBuff + i) * AUD_CHANNELS p + c)
            = monoSigBuff ! i)
    \<and> (\<forall>q<length (fillBuffer p monoSigBuff []).
          fillBuffer p monoSigBuff [] ! q
            = fillBuffer p monoSigBuff [] ! (q mod (length monoSigBuff * AUD_CHANNELS p)))
    \<and> (\<exists>lut buf. main_generate err = Some (lut, buf) \<and> length buf = BUFFER_SIZE
          \<and> (\<forall>i<48000. \<forall>c<2. buf ! (2 * i + c) = word_of_int (truncToZero (scaledSample err i))))"
proof -
  have "SINES_IN_FRAME p * length monoSigBuff = PROC_FRAME_SIZE p"
    using assms(1,2) by (simp add: SINES_IN_FRAME_def mod_eq_0_iff_dvd)
  then have A: "length (fillBuffer p monoSigBuff []) = PROC_FRAME_SIZE p * AUD_CHANNELS p"
    by (simp add: fillBuffer_def fillLoop_length mult.assoc [symmetric])
  have B: "\<forall>j<SINES_IN_FRAME p. \<forall>i<length monoSigBuff. \<forall>c<AUD_CHANNELS p.
          fillBuffer p monoSigBuff [] ! ((j * length monoSigBuff + i) * AUD_CHANNELS p + c)
            = monoSigBuff ! i"
    unfolding fillBuffer_def by (intro allI impI fillLoop_slots)
  have C: "\<forall>q<length (fillBuffer p monoSigBuff []).
          fillBuffer p monoSigBuff [] ! q
            = fillBuffer p monoSigBuff [] ! (q mod (length monoSigBuff * AUD_CHANNELS p))"
    unfolding fillBuffer_def by (intro allI impI fillLoop_periodic)
  from main_generate_ok [OF assms(3)] obtain lut buf where
    g: "main_generate err = Some (lut, buf)" and l: "length buf = 96000"
    and v: "\<forall>p<96000. buf ! p = word_of_int (truncToZero (scaledSample err (p div 2)))"
    by blast
  have "buf ! (2 * i + c) = word_of_int (truncToZero (scaledSample err i))"
    if "i < 48000" and "c < 2" for i c
  proof -
    have "2 * i + c < 96000" and "(2 * i + c) div 2 = i"
      using that by simp_all
    with v show ?thesis by simp
  qed
  with g l have D: "\<exists>lut buf. main_generate err = Some (lut, buf) \<and> length buf = BUFFER_SIZE
          \<and> (\<forall>i<48000. \<forall>c<2. buf ! (2 * i + c) = word_of_int (truncToZero (scaledSample err i)))"
    by (auto simp add: BUFFER_SIZE_def)
  from A B C D show ?thesis by blast
qed

theorem replication_exact_and_periodic_witness:
  "length monoSine1kHzLoopUp = SAMPLES_PER_SINE program_params
   \<and> PROC_FRAME_SIZE program_params mod SAMPLES_PER_SINE program_params = 0
   \<and> (\<forall>i. \<bar>exactArithmetic i\<bar> \<le> 1 / 1000)
   \<and> length (fillBuffer program_params monoSine1kHzLoopUp []) = 2304"
proof -
  have a: "length monoSine1kHzLoopUp = SAMPLES_PER_SINE program_params"
    by (simp add: monoSine1kHzLoopUp_def SAMPLES_PER_SINE_def program_params_def)
  have b: "PROC_FRAME_SIZE program_params mod SAMPLES_PER_SINE program_params = 0"
    by (simp add: SAMPLES_PER_SINE_def program_params_def)
  have c: "\<forall>i. \<bar>exactArithmetic i\<bar> \<le> 1 / 1000"
    by (simp add: exactArithmetic_def)
  from replication_exact_and_periodic [OF a b c]
  have "length (fillBuffer program_params monoSine1kHzLoopUp []) = 2304"
    by (simp add: program_params_def)
  with a b c show ?thesis by blast
qed

end
